theory Spec2Isabelle
  imports Main "HOL-Library.Word"
begin

section \<open>JavaScript values\<close>

text \<open>
  The client (\<^verbatim>\<open>lib/constantContact.ts\<close>) and the contact-detail route handle values
  whose static types are \<^verbatim>\<open>any\<close> or \<^verbatim>\<open>unknown\<close>: parsed JSON bodies, the request body,
  query values and the cached token. They are modelled by one datatype of JavaScript
  values. A number is an integer of magnitude below \<open>2 ^ 53\<close>, given by its sign and its
  magnitude: every such integer is a double, zero has both signs, and \<^verbatim>\<open>String\<close> writes
  it with all its digits (the exponent notation starts at \<open>10 ^ 21\<close>). Fractions, larger
  magnitudes, \<^verbatim>\<open>NaN\<close> and the infinities are outside the model. A string is a list of code
  units below 256; an object is the list of its own properties in enumeration order, with
  distinct keys.
\<close>

datatype jsval =
    JUndefined
  | JNull
  | JBool bool
  | JNum bool "53 word"
      \<comment> \<open>\<open>JNum neg m\<close>: the number \<open>- m\<close> if \<open>neg\<close>, and \<open>m\<close> otherwise\<close>
  | JStr string
  | JArr "jsval list"
  | JObj "(string \<times> jsval) list"

text \<open>The truth test of \<^verbatim>\<open>if (v)\<close>, \<^verbatim>\<open>!v\<close>, \<^verbatim>\<open>v ? a : b\<close>, \<^verbatim>\<open>a || b\<close> and \<^verbatim>\<open>a && b\<close>.\<close>

fun truthy :: "jsval \<Rightarrow> bool" where
  "truthy JUndefined = False"
| "truthy JNull = False"
| "truthy (JBool b) = b"
| "truthy (JNum neg m) = (m \<noteq> 0)"
| "truthy (JStr s) = (s \<noteq> [])"
| "truthy (JArr vs) = True"
| "truthy (JObj kvs) = True"

text \<open>The test of \<^verbatim>\<open>??\<close>, \<^verbatim>\<open>== null\<close> and \<^verbatim>\<open>!= null\<close>.\<close>

fun nullish :: "jsval \<Rightarrow> bool" where
  "nullish JUndefined = True"
| "nullish JNull = True"
| "nullish v = False"

definition js_coalesce :: "jsval \<Rightarrow> jsval \<Rightarrow> jsval" where
  \<comment> \<open>\<^verbatim>\<open>a ?? b\<close>\<close>
  "js_coalesce a b = (if nullish a then b else a)"

definition js_or :: "jsval \<Rightarrow> jsval \<Rightarrow> jsval" where
  \<comment> \<open>\<^verbatim>\<open>a || b\<close>\<close>
  "js_or a b = (if truthy a then a else b)"

definition js_and :: "jsval \<Rightarrow> jsval \<Rightarrow> jsval" where
  \<comment> \<open>\<^verbatim>\<open>a && b\<close>\<close>
  "js_and a b = (if truthy a then b else a)"

text \<open>
  Property access \<^verbatim>\<open>v.name\<close> for the names the code reads (\<^verbatim>\<open>message\<close>, \<^verbatim>\<open>error\<close>,
  \<^verbatim>\<open>title\<close>, \<^verbatim>\<open>error_message\<close>, \<^verbatim>\<open>error_description\<close>, \<^verbatim>\<open>access_token\<close>): an object yields
  its property or \<^verbatim>\<open>undefined\<close>; strings, numbers, booleans and arrays have no such
  property. The code only reads a property of a value it has tested to be truthy.
\<close>

fun getProp :: "jsval \<Rightarrow> string \<Rightarrow> jsval" where
  "getProp (JObj kvs) k = (case map_of kvs k of Some v \<Rightarrow> v | None \<Rightarrow> JUndefined)"
| "getProp v k = JUndefined"

subsection \<open>Strings\<close>

definition digit_char :: "nat \<Rightarrow> char" where
  "digit_char d = ''0123456789'' ! d"

function nat_to_string :: "nat \<Rightarrow> string" where
  "nat_to_string n =
     (if n < 10 then [digit_char n] else nat_to_string (n div 10) @ [digit_char (n mod 10)])"
  by pat_completeness auto
termination
  by (relation "measure id") auto

declare nat_to_string.simps [simp del]

fun join :: "string \<Rightarrow> string list \<Rightarrow> string" where
  \<comment> \<open>\<^verbatim>\<open>xs.join(sep)\<close>\<close>
  "join sep [] = []"
| "join sep [x] = x"
| "join sep (x # y # ys) = x @ sep @ join sep (y # ys)"

text \<open>
  \<^verbatim>\<open>String(v)\<close> and the conversion of \<^verbatim>\<open>${v}\<close> in a template literal. A number of the model
  is written with all its digits, and zero of either sign as \<^verbatim>\<open>0\<close>.
\<close>

fun js_String :: "jsval \<Rightarrow> string" where
  "js_String JUndefined = ''undefined''"
| "js_String JNull = ''null''"
| "js_String (JBool b) = (if b then ''true'' else ''false'')"
| "js_String (JNum neg m) =
     (if m = 0 then ''0'' else (if neg then ''-'' else []) @ nat_to_string (unat m))"
| "js_String (JStr s) = s"
| "js_String (JArr vs) = join '','' (map (\<lambda>v. if nullish v then [] else js_String v) vs)"
| "js_String (JObj kvs) = ''[object Object]''"

text \<open>White space as \<^verbatim>\<open>String.prototype.trim\<close> sees it, among the code units below 256.\<close>

definition isWhite :: "char \<Rightarrow> bool" where
  "isWhite c = (c \<in> {CHR 0x09, CHR 0x0A, CHR 0x0B, CHR 0x0C, CHR 0x0D, CHR 0x20, CHR 0xA0})"

definition trim :: "string \<Rightarrow> string" where
  "trim s = rev (dropWhile isWhite (rev (dropWhile isWhite s)))"

text \<open>\<^verbatim>\<open>s.split(",")\<close> for a one-character separator: the empty string yields one empty piece.\<close>

fun js_split :: "char \<Rightarrow> string \<Rightarrow> string list" where
  "js_split c [] = [[]]"
| "js_split c (x # xs) =
     (if x = c then [] # js_split c xs
      else (case js_split c xs of [] \<Rightarrow> [[x]] | p # ps \<Rightarrow> (x # p) # ps))"

text \<open>\<^verbatim>\<open>s.replace(/\/$/, "")\<close>: one trailing slash is removed.\<close>

definition strip_trailing_slash :: "string \<Rightarrow> string" where
  "strip_trailing_slash s = (if s \<noteq> [] \<and> last s = CHR ''/'' then butlast s else s)"

text \<open>A byte below 256 as a percent sign and two upper-case hexadecimal digits.\<close>

definition percent :: "nat \<Rightarrow> string" where
  "percent n = [CHR ''%'', ''0123456789ABCDEF'' ! (n div 16), ''0123456789ABCDEF'' ! (n mod 16)]"

subsection \<open>URLs\<close>

text \<open>
  A \<^verbatim>\<open>URL\<close> object: its serialisation up to the query (scheme, host, port and path), its
  query without the question mark and its fragment without the hash sign (\<open>None\<close> for
  \<^verbatim>\<open>null\<close>), and the list of name-value pairs behind \<^verbatim>\<open>url.searchParams\<close>.
\<close>

record url =
  url_head :: string
  url_query :: "string option"
  url_fragment :: "string option"
  url_searchParams :: "(string \<times> string) list"

text \<open>
  \<^verbatim>\<open>new URLSearchParams(pairs).toString()\<close>, the \<^verbatim>\<open>application/x-www-form-urlencoded\<close>
  serialiser: in a name or a value the letters, the digits and \<^verbatim>\<open>*-._\<close> stand for
  themselves, a space is written as a plus sign, and every other code unit as its UTF-8
  bytes, each percent-encoded; a name and its value are joined by \<^verbatim>\<open>=\<close>, the pairs by \<^verbatim>\<open>&\<close>.
\<close>

definition form_plain :: "char \<Rightarrow> bool" where
  "form_plain c =
     (c \<in> set ''ABCDEFGHIJKLMNOPQRSTUVWXYZabcdefghijklmnopqrstuvwxyz0123456789*-._'')"

definition form_unit :: "char \<Rightarrow> string" where
  "form_unit c =
     (let n = (of_char c :: nat)
      in if form_plain c then [c]
         else if c = CHR '' '' then ''+''
         else if n < 128 then percent n
         else percent (192 + n div 64) @ percent (128 + n mod 64))"

definition URLSearchParams_toString :: "(string \<times> string) list \<Rightarrow> string" where
  "URLSearchParams_toString ps =
     join ''&'' (map (\<lambda>(k, v). concat (map form_unit k) @ ''='' @ concat (map form_unit v)) ps)"

text \<open>
  \<^verbatim>\<open>searchParams.set(k, v)\<close> on the list: the first pair named \<open>k\<close> takes the value \<open>v\<close>
  and the other pairs named \<open>k\<close> are removed; without one, the pair is appended.
\<close>

fun searchParams_set :: "string \<Rightarrow> string \<Rightarrow> (string \<times> string) list \<Rightarrow> (string \<times> string) list" where
  "searchParams_set k v [] = [(k, v)]"
| "searchParams_set k v (p # ps) =
     (if fst p = k then (k, v) # filter (\<lambda>q. fst q \<noteq> k) ps else p # searchParams_set k v ps)"

text \<open>
  \<^verbatim>\<open>url.searchParams.set(k, v)\<close>: the list is updated and the query of the URL becomes the
  serialisation of the list (which is not empty, so the query is not \<^verbatim>\<open>null\<close>).
\<close>

definition URL_searchParams_set :: "string \<Rightarrow> string \<Rightarrow> url \<Rightarrow> url" where
  "URL_searchParams_set k v u =
     u\<lparr>url_query := Some (URLSearchParams_toString (searchParams_set k v (url_searchParams u))),
       url_searchParams := searchParams_set k v (url_searchParams u)\<rparr>"

definition URL_toString :: "url \<Rightarrow> string" where
  \<comment> \<open>\<^verbatim>\<open>url.toString()\<close>\<close>
  "URL_toString u =
     url_head u
     @ (case url_query u of None \<Rightarrow> [] | Some q \<Rightarrow> CHR ''?'' # q)
     @ (case url_fragment u of None \<Rightarrow> [] | Some f \<Rightarrow> CHR ''#'' # f)"

section \<open>Errors, requests and responses\<close>

text \<open>
  A thrown \<^verbatim>\<open>Error\<close>, with the two properties the client attaches to it. A property that
  was never assigned is absent (\<open>None\<close>, \<open>JUndefined\<close>).
\<close>

record js_error =
  err_message :: string
  err_status :: "nat option"
  err_details :: jsval

definition Error :: "string \<Rightarrow> js_error" where
  \<comment> \<open>\<^verbatim>\<open>new Error(msg)\<close>\<close>
  "Error msg = \<lparr>err_message = msg, err_status = None, err_details = JUndefined\<rparr>"

text \<open>
  What \<^verbatim>\<open>fetch\<close> is given: the address, a string, and the options. A JSON body is kept as
  the call that serialises it.
\<close>

datatype reqbody =
    NoBody
  | JSON_stringify jsval
  | Text string

record request =
  req_url :: string
  req_method :: string
  req_headers :: "(string \<times> string) list"
  req_body :: reqbody
  req_cache :: string

text \<open>A response as the client reads it: \<^verbatim>\<open>res.status\<close> and \<^verbatim>\<open>await res.text()\<close>.\<close>

record response =
  res_status :: nat
  res_text :: string

definition res_ok :: "response \<Rightarrow> bool" where
  \<comment> \<open>\<^verbatim>\<open>res.ok\<close>: the status is in 200..299\<close>
  "res_ok res = (200 \<le> res_status res \<and> res_status res \<le> 299)"

text \<open>
  The surroundings of the process: its environment variables, \<^verbatim>\<open>JSON.parse\<close> and the
  parser behind \<^verbatim>\<open>new URL\<close> (\<open>None\<close> where they throw), and the network, which answers a
  request, given the requests sent before it, with a response or with the error \<^verbatim>\<open>fetch\<close>
  or \<^verbatim>\<open>res.text()\<close> rejects with.
\<close>

record host =
  env :: "string \<Rightarrow> string option"
  JSON_parse :: "string \<Rightarrow> jsval option"
  URL_parse :: "string \<Rightarrow> url option"
  network :: "request list \<Rightarrow> request \<Rightarrow> js_error + response"

text \<open>\<^verbatim>\<open>FetchOpts\<close>; an absent \<^verbatim>\<open>body\<close> is \<open>JUndefined\<close>.\<close>

record FetchOpts =
  opt_method :: "string option"
  opt_path :: string
  opt_query :: "(string \<times> jsval) list option"
  opt_body :: jsval

text \<open>What \<^verbatim>\<open>ccFetchJson\<close> resolves with.\<close>

record cc_result =
  status :: nat
  data :: jsval

section \<open>The client: \<^verbatim>\<open>lib/constantContact.ts\<close>\<close>

text \<open>
  The module state: the two module variables, and the requests handed to \<^verbatim>\<open>fetch\<close> so
  far. The type of the operation held in \<^verbatim>\<open>refreshInFlight\<close> is a parameter. In this section
  every \<^verbatim>\<open>await\<close> runs to its end before the caller goes on (one logical request at a
  time), so the operation is given by the result it settles with; the next section
  interleaves several requests, and the slot holds a reference to a promise there.
\<close>

record 'p module_state =
  accessTokenCache :: jsval
  refreshInFlight :: "'p option"
  sent :: "request list"

type_synonym world = "(js_error + jsval) module_state"

definition env_or_null :: "host \<Rightarrow> string \<Rightarrow> jsval" where
  \<comment> \<open>\<^verbatim>\<open>process.env.NAME ?? null\<close>\<close>
  "env_or_null h name = (case env h name of None \<Rightarrow> JNull | Some v \<Rightarrow> JStr v)"

definition initial_world :: "host \<Rightarrow> world" where
  "initial_world h =
     \<lparr>accessTokenCache = env_or_null h ''CC_ACCESS_TOKEN'', refreshInFlight = None, sent = []\<rparr>"

definition requireEnv :: "host \<Rightarrow> string \<Rightarrow> js_error + string" where
  "requireEnv h name =
     (case env h name of
        None \<Rightarrow> Inl (Error (''Missing environment variable: '' @ name))
      | Some v \<Rightarrow>
          if v = [] then Inl (Error (''Missing environment variable: '' @ name)) else Inr v)"

text \<open>What \<^verbatim>\<open>requireEnv\<close> rejects: a variable that is absent, or present and empty.\<close>

definition unset :: "host \<Rightarrow> string \<Rightarrow> bool" where
  "unset h name = (env h name = None \<or> env h name = Some [])"

definition getAccessToken ::
  "host \<Rightarrow> ('p, 'z) module_state_scheme \<Rightarrow> (js_error + jsval) \<times> ('p, 'z) module_state_scheme" where
  "getAccessToken h w =
     (let w1 = (if \<not> truthy (accessTokenCache w)
                then w\<lparr>accessTokenCache := env_or_null h ''CC_ACCESS_TOKEN''\<rparr> else w)
      in if \<not> truthy (accessTokenCache w1)
         then (Inl (Error ''Missing environment variable: CC_ACCESS_TOKEN''), w1)
         else (Inr (accessTokenCache w1), w1))"

definition safeJson :: "host \<Rightarrow> string \<Rightarrow> jsval" where
  "safeJson h text = (case JSON_parse h text of Some v \<Rightarrow> v | None \<Rightarrow> JNull)"

definition fetch :: "host \<Rightarrow> request \<Rightarrow> world \<Rightarrow> (js_error + response) \<times> world" where
  "fetch h req w = (network h (sent w) req, w\<lparr>sent := sent w @ [req]\<rparr>)"

text \<open>
  \<^verbatim>\<open>ccFetchJsonWithToken\<close>, lines 55 to 61, and \<^verbatim>\<open>url.toString()\<close> of line 63: the address
  given to \<^verbatim>\<open>fetch\<close>, or the \<^verbatim>\<open>TypeError\<close> of the \<^verbatim>\<open>URL\<close> constructor (its message is
  that of Node; it has no \<^verbatim>\<open>status\<close>).
\<close>

definition ccUrl :: "host \<Rightarrow> string \<Rightarrow> FetchOpts \<Rightarrow> js_error + string" where
  "ccUrl h baseUrl opts =
     (case URL_parse h (strip_trailing_slash baseUrl @ opt_path opts) of
        None \<Rightarrow> Inl (Error ''Invalid URL'')
      | Some u \<Rightarrow>
          Inr (URL_toString
                 (case opt_query opts of
                    None \<Rightarrow> u
                  | Some q \<Rightarrow>
                      fold (\<lambda>(k, v) u. if v \<noteq> JUndefined
                                        then URL_searchParams_set k (js_String v) u else u) q u)))"

text \<open>Lines 63 to 72: the request handed to \<^verbatim>\<open>fetch\<close>, for the address \<open>url\<close>.\<close>

definition ccRequest :: "string \<Rightarrow> jsval \<Rightarrow> FetchOpts \<Rightarrow> request" where
  "ccRequest url token opts =
     \<lparr>req_url = url,
      req_method = (case opt_method opts of None \<Rightarrow> ''GET'' | Some m \<Rightarrow> m),
      req_headers =
        [(''Authorization'', ''Bearer '' @ js_String token), (''Accept'', ''application/json'')]
        @ (if truthy (opt_body opts) then [(''Content-Type'', ''application/json'')] else []),
      req_body = (if truthy (opt_body opts) then JSON_stringify (opt_body opts) else NoBody),
      req_cache = ''no-store''\<rparr>"

text \<open>\<^verbatim>\<open>ccFetchJsonWithToken\<close>, lines 74 to 88: what it makes of the response.\<close>

definition ccResult :: "host \<Rightarrow> response \<Rightarrow> js_error + cc_result" where
  "ccResult h res =
     (let text = res_text res;
          data = (if text \<noteq> [] then safeJson h text else JNull)
      in if \<not> res_ok res
         then Inl \<lparr>err_message =
                     js_String
                       (js_or
                          (js_and data
                             (js_or (js_or (js_or (getProp data ''message'') (getProp data ''error''))
                                           (getProp data ''title''))
                                    (getProp data ''error_message'')))
                          (JStr (''Constant Contact API error ('' @ nat_to_string (res_status res) @ '')''))),
                   err_status = Some (res_status res),
                   err_details = js_coalesce data (JStr text)\<rparr>
         else Inr \<lparr>status = res_status res, data = js_coalesce data (JObj [])\<rparr>)"

definition ccFetchJsonWithToken ::
  "host \<Rightarrow> string \<Rightarrow> jsval \<Rightarrow> FetchOpts \<Rightarrow> world \<Rightarrow> (js_error + cc_result) \<times> world" where
  "ccFetchJsonWithToken h baseUrl token opts w =
     (case ccUrl h baseUrl opts of
        Inl e \<Rightarrow> (Inl e, w)
      | Inr url \<Rightarrow>
          (case fetch h (ccRequest url token opts) w of
             (Inl e, w1) \<Rightarrow> (Inl e, w1)
           | (Inr res, w1) \<Rightarrow> (ccResult h res, w1)))"

text \<open>The token endpoint's request, lines 98 to 110.\<close>

definition tokenRequest :: "string \<Rightarrow> string \<Rightarrow> request" where
  "tokenRequest clientId refreshToken =
     \<lparr>req_url = ''https://authz.constantcontact.com/oauth2/default/v1/token'',
      req_method = ''POST'',
      req_headers =
        [(''Content-Type'', ''application/x-www-form-urlencoded''), (''Accept'', ''application/json'')],
      req_body =
        Text (URLSearchParams_toString
                [(''grant_type'', ''refresh_token''), (''refresh_token'', refreshToken),
                 (''client_id'', clientId)]),
      req_cache = ''no-store''\<rparr>"

text \<open>Lines 112 to 128: the newly issued token, or the error thrown.\<close>

definition tokenResult :: "host \<Rightarrow> response \<Rightarrow> js_error + jsval" where
  "tokenResult h res =
     (let text = res_text res;
          json = (if text \<noteq> [] then safeJson h text else JNull)
      in if \<not> res_ok res
         then Inl \<lparr>err_message =
                     js_String
                       (js_or
                          (js_and json
                             (js_or (js_or (getProp json ''error_description'') (getProp json ''error''))
                                    (getProp json ''message'')))
                          (JStr (''Failed to refresh Constant Contact token (''
                                 @ nat_to_string (res_status res) @ '')''))),
                   err_status = Some (res_status res),
                   err_details = js_coalesce json (JStr text)\<rparr>
         else (let tokenResp = js_coalesce json (JObj [])
               in if \<not> truthy (getProp tokenResp ''access_token'')
                  then Inl (Error ''Token refresh succeeded but no access_token was returned.'')
                  else Inr (getProp tokenResp ''access_token'')))"

text \<open>The body of the operation stored in \<^verbatim>\<open>refreshInFlight\<close>, lines 94 to 137.\<close>

definition refreshExchange :: "host \<Rightarrow> world \<Rightarrow> (js_error + jsval) \<times> world" where
  "refreshExchange h w =
     (case requireEnv h ''CC_CLIENT_ID'' of
        Inl e \<Rightarrow> (Inl e, w)
      | Inr clientId \<Rightarrow>
          (case requireEnv h ''CC_REFRESH_TOKEN'' of
             Inl e \<Rightarrow> (Inl e, w)
           | Inr refreshToken \<Rightarrow>
               (case fetch h (tokenRequest clientId refreshToken) w of
                  (Inl e, w1) \<Rightarrow> (Inl e, w1)
                | (Inr res, w1) \<Rightarrow>
                    (case tokenResult h res of
                       Inl e \<Rightarrow> (Inl e, w1)
                     | Inr tok \<Rightarrow> (Inr tok, w1\<lparr>accessTokenCache := tok\<rparr>)))))"

text \<open>
  \<^verbatim>\<open>refreshAccessToken\<close>: an operation found in the slot is returned as it is; otherwise
  the exchange runs with the slot holding it, and \<^verbatim>\<open>finally\<close> empties the slot before the
  result goes to the caller.
\<close>

definition refreshAccessToken :: "host \<Rightarrow> world \<Rightarrow> (js_error + jsval) \<times> world" where
  "refreshAccessToken h w =
     (case refreshInFlight w of
        Some r \<Rightarrow> (r, w)
      | None \<Rightarrow>
          (case refreshExchange h w of
             (r, w1) \<Rightarrow> (r, (w1\<lparr>refreshInFlight := Some r\<rparr>)\<lparr>refreshInFlight := None\<rparr>)))"

definition ccFetchJson :: "host \<Rightarrow> FetchOpts \<Rightarrow> world \<Rightarrow> (js_error + cc_result) \<times> world" where
  "ccFetchJson h opts w =
     (case requireEnv h ''CC_BASE_URL'' of
        Inl e \<Rightarrow> (Inl e, w)
      | Inr baseUrl \<Rightarrow>
          (case (case getAccessToken h w of
                   (Inl e, w1) \<Rightarrow> (Inl e, w1)
                 | (Inr token, w1) \<Rightarrow> ccFetchJsonWithToken h baseUrl token opts w1) of
             (Inr r, w2) \<Rightarrow> (Inr r, w2)
           | (Inl e, w2) \<Rightarrow>
               if err_status e = Some 401
               then (case refreshAccessToken h w2 of
                       (Inl e', w3) \<Rightarrow> (Inl e', w3)
                     | (Inr newToken, w3) \<Rightarrow> ccFetchJsonWithToken h baseUrl newToken opts w3)
               else (Inl e, w2)))"

section \<open>Several requests in one event loop\<close>

text \<open>
  Each \<^verbatim>\<open>ccFetchJson\<close> call is a task; between two \<^verbatim>\<open>await\<close>s a task runs alone, and at
  an \<^verbatim>\<open>await\<close> any other task may run. A step of the system is one such uninterrupted
  piece of the source, started by an event: a new call, the settling of the \<^verbatim>\<open>fetch\<close> a
  task waits for, the settling of the token endpoint's \<^verbatim>\<open>fetch\<close>, or the resumption of a
  task whose awaited refresh has settled. The events may come in any order, so every
  schedule of the event loop is a run of the system. A refresh promise is pending from
  the moment its request to the token endpoint is handed to \<^verbatim>\<open>fetch\<close> until that request
  settles: the pending promises are the refresh calls in flight.
\<close>

datatype promise_state = Pending | Fulfilled jsval | Rejected js_error

datatype task =
    AwaitFirst string FetchOpts
      \<comment> \<open>line 32: the first attempt's \<^verbatim>\<open>fetch\<close> is outstanding\<close>
  | AwaitRefreshOwner string FetchOpts nat
      \<comment> \<open>line 140: the task created the promise and awaits it inside \<^verbatim>\<open>try\<close>\<close>
  | AwaitRefreshJoined string FetchOpts nat
      \<comment> \<open>line 92: the task was handed the promise in the slot and awaits it at line 36\<close>
  | AwaitRetry string FetchOpts
      \<comment> \<open>line 37: the retry's \<^verbatim>\<open>fetch\<close> is outstanding\<close>
  | Done "js_error + cc_result"

record system = "nat module_state" +
  promises :: "promise_state list"
  tasks :: "task list"

datatype event =
    Call FetchOpts
  | Reply nat "js_error + response"
  | TokenReply nat "js_error + response"
  | Resume nat

definition initial_system :: "host \<Rightarrow> system" where
  "initial_system h =
     \<lparr>accessTokenCache = env_or_null h ''CC_ACCESS_TOKEN'', refreshInFlight = None, sent = [],
      promises = [], tasks = []\<rparr>"

text \<open>
  \<^verbatim>\<open>refreshAccessToken\<close> as called by task \<open>i\<close>, up to its first suspension: line 92, or
  lines 94 to 110 and the assignment of the new promise to the slot. A missing variable
  rejects the new promise at once, with no request sent.
\<close>

definition refresh_call :: "host \<Rightarrow> string \<Rightarrow> FetchOpts \<Rightarrow> nat \<Rightarrow> system \<Rightarrow> system" where
  "refresh_call h baseUrl opts i s =
     (case refreshInFlight s of
        Some p \<Rightarrow> s\<lparr>tasks := (tasks s)[i := AwaitRefreshJoined baseUrl opts p]\<rparr>
      | None \<Rightarrow>
          (let p = length (promises s);
               waiting = (tasks s)[i := AwaitRefreshOwner baseUrl opts p]
           in case requireEnv h ''CC_CLIENT_ID'' of
                Inl e \<Rightarrow>
                  s\<lparr>refreshInFlight := Some p, promises := promises s @ [Rejected e],
                    tasks := waiting\<rparr>
              | Inr clientId \<Rightarrow>
                  (case requireEnv h ''CC_REFRESH_TOKEN'' of
                     Inl e \<Rightarrow>
                       s\<lparr>refreshInFlight := Some p, promises := promises s @ [Rejected e],
                         tasks := waiting\<rparr>
                   | Inr refreshToken \<Rightarrow>
                       s\<lparr>refreshInFlight := Some p,
                         sent := sent s @ [tokenRequest clientId refreshToken],
                         promises := promises s @ [Pending], tasks := waiting\<rparr>)))"

text \<open>The \<^verbatim>\<open>catch\<close> of \<^verbatim>\<open>ccFetchJson\<close>, lines 33 to 40, for task \<open>i\<close>.\<close>

definition catch_first :: "host \<Rightarrow> string \<Rightarrow> FetchOpts \<Rightarrow> nat \<Rightarrow> js_error \<Rightarrow> system \<Rightarrow> system" where
  "catch_first h baseUrl opts i e s =
     (if err_status e = Some 401 then refresh_call h baseUrl opts i s
      else s\<lparr>tasks := (tasks s)[i := Done (Inl e)]\<rparr>)"

text \<open>
  A new call, lines 28 to 72: the task is appended and runs to its first \<^verbatim>\<open>fetch\<close>. What
  \<^verbatim>\<open>getAccessToken\<close> or the \<^verbatim>\<open>URL\<close> constructor throws is caught at line 33.
\<close>

definition call :: "host \<Rightarrow> FetchOpts \<Rightarrow> system \<Rightarrow> system" where
  "call h opts s =
     (let i = length (tasks s)
      in case requireEnv h ''CC_BASE_URL'' of
           Inl e \<Rightarrow> s\<lparr>tasks := tasks s @ [Done (Inl e)]\<rparr>
         | Inr baseUrl \<Rightarrow>
             (case getAccessToken h s of
                (Inl e, s1) \<Rightarrow>
                  catch_first h baseUrl opts i e (s1\<lparr>tasks := tasks s1 @ [AwaitFirst baseUrl opts]\<rparr>)
              | (Inr token, s1) \<Rightarrow>
                  (case ccUrl h baseUrl opts of
                     Inl e \<Rightarrow>
                       catch_first h baseUrl opts i e
                         (s1\<lparr>tasks := tasks s1 @ [AwaitFirst baseUrl opts]\<rparr>)
                   | Inr url \<Rightarrow>
                       s1\<lparr>sent := sent s1 @ [ccRequest url token opts],
                          tasks := tasks s1 @ [AwaitFirst baseUrl opts]\<rparr>)))"

definition attempt_result :: "host \<Rightarrow> js_error + response \<Rightarrow> js_error + cc_result" where
  \<comment> \<open>what \<^verbatim>\<open>ccFetchJsonWithToken\<close> settles with once its \<^verbatim>\<open>fetch\<close> has settled\<close>
  "attempt_result h out = (case out of Inl e \<Rightarrow> Inl e | Inr res \<Rightarrow> ccResult h res)"

text \<open>The \<^verbatim>\<open>fetch\<close> awaited by task \<open>i\<close> settles: the first attempt (lines 32 to 40) or the retry (line 37).\<close>

definition reply :: "host \<Rightarrow> nat \<Rightarrow> js_error + response \<Rightarrow> system \<Rightarrow> system option" where
  "reply h i out s =
     (if i < length (tasks s)
      then (case tasks s ! i of
              AwaitFirst baseUrl opts \<Rightarrow>
                (case attempt_result h out of
                   Inr r \<Rightarrow> Some (s\<lparr>tasks := (tasks s)[i := Done (Inr r)]\<rparr>)
                 | Inl e \<Rightarrow> Some (catch_first h baseUrl opts i e s))
            | AwaitRetry baseUrl opts \<Rightarrow>
                Some (s\<lparr>tasks := (tasks s)[i := Done (attempt_result h out)]\<rparr>)
            | _ \<Rightarrow> None)
      else None)"

text \<open>The token endpoint's \<^verbatim>\<open>fetch\<close> of the pending promise \<open>p\<close> settles: lines 112 to 137.\<close>

definition token_reply :: "host \<Rightarrow> nat \<Rightarrow> js_error + response \<Rightarrow> system \<Rightarrow> system option" where
  "token_reply h p out s =
     (if p < length (promises s) \<and> promises s ! p = Pending
      then (case out of
              Inl e \<Rightarrow> Some (s\<lparr>promises := (promises s)[p := Rejected e]\<rparr>)
            | Inr res \<Rightarrow>
                (case tokenResult h res of
                   Inl e \<Rightarrow> Some (s\<lparr>promises := (promises s)[p := Rejected e]\<rparr>)
                 | Inr tok \<Rightarrow>
                     Some (s\<lparr>accessTokenCache := tok, promises := (promises s)[p := Fulfilled tok]\<rparr>)))
      else None)"

text \<open>
  What a task does with the settled refresh, lines 36 and 37: the retry is handed to
  \<^verbatim>\<open>fetch\<close> with the token the promise holds, or the rejection leaves \<^verbatim>\<open>ccFetchJson\<close>, as
  does what the \<^verbatim>\<open>URL\<close> constructor throws at the retry.
\<close>

definition after_refresh ::
  "host \<Rightarrow> string \<Rightarrow> FetchOpts \<Rightarrow> nat \<Rightarrow> promise_state \<Rightarrow> system \<Rightarrow> system option" where
  "after_refresh h baseUrl opts i ps s =
     (case ps of
        Pending \<Rightarrow> None
      | Fulfilled newToken \<Rightarrow>
          (case ccUrl h baseUrl opts of
             Inl e \<Rightarrow> Some (s\<lparr>tasks := (tasks s)[i := Done (Inl e)]\<rparr>)
           | Inr url \<Rightarrow>
               Some (s\<lparr>sent := sent s @ [ccRequest url newToken opts],
                       tasks := (tasks s)[i := AwaitRetry baseUrl opts]\<rparr>))
      | Rejected e \<Rightarrow> Some (s\<lparr>tasks := (tasks s)[i := Done (Inl e)]\<rparr>))"

text \<open>
  Task \<open>i\<close> resumes after the promise it awaits has settled. The task that created the
  promise first runs \<^verbatim>\<open>finally\<close>, lines 141 to 143.
\<close>

definition resume :: "host \<Rightarrow> nat \<Rightarrow> system \<Rightarrow> system option" where
  "resume h i s =
     (if i < length (tasks s)
      then (case tasks s ! i of
              AwaitRefreshOwner baseUrl opts p \<Rightarrow>
                (if p < length (promises s)
                 then after_refresh h baseUrl opts i (promises s ! p) (s\<lparr>refreshInFlight := None\<rparr>)
                 else None)
            | AwaitRefreshJoined baseUrl opts p \<Rightarrow>
                (if p < length (promises s)
                 then after_refresh h baseUrl opts i (promises s ! p) s
                 else None)
            | _ \<Rightarrow> None)
      else None)"

fun step :: "host \<Rightarrow> event \<Rightarrow> system \<Rightarrow> system option" where
  "step h (Call opts) s = Some (call h opts s)"
| "step h (Reply i out) s = reply h i out s"
| "step h (TokenReply p out) s = token_reply h p out s"
| "step h (Resume i) s = resume h i s"

fun run :: "host \<Rightarrow> event list \<Rightarrow> system \<Rightarrow> system option" where
  "run h [] s = Some s"
| "run h (ev # evs) s = (case step h ev s of None \<Rightarrow> None | Some s1 \<Rightarrow> run h evs s1)"

text \<open>The refresh calls in flight, and the promises that tasks hold as creators.\<close>

definition in_flight :: "system \<Rightarrow> nat list" where
  "in_flight s = filter (\<lambda>p. promises s ! p = Pending) [0..<length (promises s)]"

fun owned :: "task \<Rightarrow> nat list" where
  "owned (AwaitRefreshOwner baseUrl opts p) = [p]"
| "owned t = []"

definition owners :: "system \<Rightarrow> nat list" where
  "owners s = concat (map owned (tasks s))"

text \<open>
  The invariant of the event loop: with the slot empty nothing is pending and no task is
  suspended at line 140; with \<open>p\<close> in the slot, \<open>p\<close> is a promise, the one task suspended at
  line 140 created \<open>p\<close>, and no other promise is pending.
\<close>

definition one_refresh :: "system \<Rightarrow> bool" where
  "one_refresh s =
     (case refreshInFlight s of
        None \<Rightarrow> in_flight s = [] \<and> owners s = []
      | Some p \<Rightarrow>
          p < length (promises s) \<and> owners s = [p] \<and> (in_flight s = [] \<or> in_flight s = [p]))"

text \<open>
  The error of a refresh without its configuration: the first of the two variables that
  \<^verbatim>\<open>requireEnv\<close> rejects. While a variable is unset, every promise is rejected with it and
  every request sent is one of \<^verbatim>\<open>ccFetchJsonWithToken\<close>.
\<close>

definition config_error :: "host \<Rightarrow> js_error" where
  "config_error h =
     Error (''Missing environment variable: ''
            @ (if unset h ''CC_CLIENT_ID'' then ''CC_CLIENT_ID'' else ''CC_REFRESH_TOKEN''))"

definition never_exchanged :: "host \<Rightarrow> system \<Rightarrow> bool" where
  "never_exchanged h s =
     (set (promises s) \<subseteq> {Rejected (config_error h)}
      \<and> (\<forall>req\<in>set (sent s). \<exists>url token opts. req = ccRequest url token opts))"

text \<open>
  The base URL and the options a waiting task holds; and the states in which the address
  of every waiting task is one that the \<^verbatim>\<open>URL\<close> constructor accepts.
\<close>

fun address :: "task \<Rightarrow> (string \<times> FetchOpts) option" where
  "address (AwaitFirst baseUrl opts) = Some (baseUrl, opts)"
| "address (AwaitRefreshOwner baseUrl opts p) = Some (baseUrl, opts)"
| "address (AwaitRefreshJoined baseUrl opts p) = Some (baseUrl, opts)"
| "address (AwaitRetry baseUrl opts) = Some (baseUrl, opts)"
| "address (Done r) = None"

definition addressed :: "host \<Rightarrow> system \<Rightarrow> bool" where
  "addressed h s =
     (\<forall>t \<in> set (tasks s).
        case address t of
          None \<Rightarrow> True
        | Some (baseUrl, opts) \<Rightarrow> (case ccUrl h baseUrl opts of Inl e \<Rightarrow> False | Inr url \<Rightarrow> True))"

subsection \<open>A call that runs alone\<close>

text \<open>
  The module state as the previous section has it, for a system whose slot is empty; and
  the schedule of a new call that no other task interrupts, the network answering each
  request as the host says.
\<close>

definition world_of :: "system \<Rightarrow> world" where
  "world_of s = \<lparr>accessTokenCache = accessTokenCache s, refreshInFlight = None, sent = sent s\<rparr>"

definition after_unauthorized :: "host \<Rightarrow> string \<Rightarrow> FetchOpts \<Rightarrow> nat \<Rightarrow> nat \<Rightarrow> request list \<Rightarrow> event list" where
  "after_unauthorized h baseUrl opts i p history =
     (case requireEnv h ''CC_CLIENT_ID'' of
        Inl e \<Rightarrow> [Resume i]
      | Inr clientId \<Rightarrow>
          (case requireEnv h ''CC_REFRESH_TOKEN'' of
             Inl e \<Rightarrow> [Resume i]
           | Inr refreshToken \<Rightarrow>
               TokenReply p (network h history (tokenRequest clientId refreshToken))
               # Resume i
               # (case network h history (tokenRequest clientId refreshToken) of
                    Inl e \<Rightarrow> []
                  | Inr res \<Rightarrow>
                      (case tokenResult h res of
                         Inl e \<Rightarrow> []
                       | Inr tok \<Rightarrow>
                           (case ccUrl h baseUrl opts of
                              Inl e \<Rightarrow> []
                            | Inr url \<Rightarrow>
                                [Reply i (network h (history @ [tokenRequest clientId refreshToken])
                                            (ccRequest url tok opts))])))))"

definition alone :: "host \<Rightarrow> FetchOpts \<Rightarrow> system \<Rightarrow> event list" where
  "alone h opts s =
     Call opts
     # (case requireEnv h ''CC_BASE_URL'' of
          Inl e \<Rightarrow> []
        | Inr baseUrl \<Rightarrow>
            (case getAccessToken h s of
               (Inl e, s1) \<Rightarrow> []
             | (Inr token, s1) \<Rightarrow>
                 (case ccUrl h baseUrl opts of
                    Inl e \<Rightarrow> []
                  | Inr url \<Rightarrow>
                      Reply (length (tasks s)) (network h (sent s) (ccRequest url token opts))
                      # (case attempt_result h (network h (sent s) (ccRequest url token opts)) of
                           Inr r \<Rightarrow> []
                         | Inl e \<Rightarrow>
                             if err_status e = Some 401
                             then after_unauthorized h baseUrl opts (length (tasks s))
                                    (length (promises s)) (sent s @ [ccRequest url token opts])
                             else []))))"

section \<open>The contact-detail route: \<^verbatim>\<open>app/api/contacts/[id]/route.ts\<close>\<close>

definition ALLOWED_INCLUDE :: "string list" where
  "ALLOWED_INCLUDE =
     [''custom_fields'', ''list_memberships'', ''phone_numbers'', ''street_addresses'',
      ''taggings'', ''notes'']"

definition parseCsv :: "string \<Rightarrow> string list" where
  "parseCsv v = filter (\<lambda>s. s \<noteq> []) (map trim (js_split CHR '','' v))"

text \<open>
  The regular expression of \<^verbatim>\<open>looksUuid\<close>, anchored at both ends and case-insensitive:
  groups of 8, 4, 4, 4 and 12 hexadecimal digits with a dash between two groups.
\<close>

definition isHex :: "char \<Rightarrow> bool" where
  "isHex c = (c \<in> set ''0123456789abcdefABCDEF'')"

fun hex_group :: "nat \<Rightarrow> string \<Rightarrow> string option" where
  \<comment> \<open>\<^verbatim>\<open>[0-9a-f]{n}\<close> at the head of the string: what follows it\<close>
  "hex_group 0 s = Some s"
| "hex_group (Suc n) [] = None"
| "hex_group (Suc n) (c # s) = (if isHex c then hex_group n s else None)"

fun dash :: "string \<Rightarrow> string option" where
  "dash [] = None"
| "dash (c # s) = (if c = CHR ''-'' then Some s else None)"

definition uuid_regex_test :: "string \<Rightarrow> bool" where
  "uuid_regex_test v =
     (Option.bind (Option.bind (Option.bind (Option.bind (Option.bind (Option.bind (Option.bind
        (Option.bind (hex_group 8 v) dash) (hex_group 4)) dash) (hex_group 4)) dash)
        (hex_group 4)) dash) (hex_group 12) = Some [])"

definition looksUuid :: "string \<Rightarrow> bool" where
  "looksUuid v = uuid_regex_test (trim v)"

text \<open>
  \<^verbatim>\<open>encodeURIComponent\<close> on code units below 256: the unreserved characters stand for
  themselves, the others are written as their UTF-8 bytes, each as a percent sign and two
  upper-case hexadecimal digits.
\<close>

definition unreserved :: "char \<Rightarrow> bool" where
  "unreserved c =
     (c \<in> set ''ABCDEFGHIJKLMNOPQRSTUVWXYZabcdefghijklmnopqrstuvwxyz0123456789-_.!~*()''
      \<or> c = CHR 0x27)"

definition encode_unit :: "char \<Rightarrow> string" where
  "encode_unit c =
     (let n = (of_char c :: nat)
      in if unreserved c then [c]
         else if n < 128 then percent n
         else percent (192 + n div 64) @ percent (128 + n mod 64))"

definition encodeURIComponent :: "string \<Rightarrow> string" where
  "encodeURIComponent s = concat (map encode_unit s)"

record http_response =
  resp_status :: nat
  resp_body :: jsval

text \<open>
  \<^verbatim>\<open>NextResponse.json(body, {status})\<close>. The \<^verbatim>\<open>Response\<close> constructor behind it throws a
  \<^verbatim>\<open>RangeError\<close> for a status outside 200..599 and a \<^verbatim>\<open>TypeError\<close> for a body given with a
  status that allows none (the messages are those of Node).
\<close>

definition NextResponse_json :: "jsval \<Rightarrow> nat \<Rightarrow> js_error + http_response" where
  \<open>NextResponse_json body st =
     (if st < 200 \<or> 599 < st
      then Inl (Error ''init["status"] must be in the range of 200 to 599, inclusive.'')
      else if st = 204 \<or> st = 205 \<or> st = 304
      then Inl (Error (''Response constructor: Invalid response status code '' @ nat_to_string st))
      else Inr \<lparr>resp_status = st, resp_body = body\<rparr>)\<close>

text \<open>
  Lines 28 to 54: the \<^verbatim>\<open>include\<close> value to forward (\<open>JUndefined\<close> without the parameter),
  or the message of the 400 response. \<open>includeRaw\<close> is \<^verbatim>\<open>url.searchParams.get("include")\<close>,
  \<open>None\<close> for \<^verbatim>\<open>null\<close>.
\<close>

definition check_include :: "string option \<Rightarrow> string + jsval" where
  \<open>check_include includeRaw =
     (case includeRaw of
        None \<Rightarrow> Inr JUndefined
      | Some raw \<Rightarrow>
          (let values = parseCsv raw
           in if length values = 0
              then Inl ''Bad request: include cannot be empty. Example: include=phone_numbers,street_addresses''
              else (case find (\<lambda>v. v \<notin> set ALLOWED_INCLUDE) values of
                      Some v \<Rightarrow> Inl (''Bad request: invalid include "'' @ v @ ''".'')
                    | None \<Rightarrow> Inr (JStr (join '','' values)))))\<close>

text \<open>The \<^verbatim>\<open>try\<close> block of \<^verbatim>\<open>GET\<close>, lines 18 to 63; \<open>contact_id\<close> is the awaited path parameter \<^verbatim>\<open>id\<close>.\<close>

definition GET_try :: "host \<Rightarrow> string \<Rightarrow> string option \<Rightarrow> world \<Rightarrow> (js_error + http_response) \<times> world" where
  "GET_try h contact_id includeRaw w =
     (if \<not> looksUuid contact_id
      then (NextResponse_json (JObj [(''error'', JStr ''Bad request: contact_id must be a UUID.'')]) 400, w)
      else (case check_include includeRaw of
              Inl msg \<Rightarrow> (NextResponse_json (JObj [(''error'', JStr msg)]) 400, w)
            | Inr include \<Rightarrow>
                (case ccFetchJson h
                        \<lparr>opt_method = None,
                         opt_path = ''/contacts/'' @ encodeURIComponent contact_id,
                         opt_query = (if truthy include then Some [(''include'', include)] else None),
                         opt_body = JUndefined\<rparr> w of
                   (Inl e, w1) \<Rightarrow> (Inl e, w1)
                 | (Inr r, w1) \<Rightarrow> (NextResponse_json (data r) (status r), w1))))"

definition GET :: "host \<Rightarrow> string \<Rightarrow> string option \<Rightarrow> world \<Rightarrow> (js_error + http_response) \<times> world" where
  "GET h contact_id includeRaw w =
     (case GET_try h contact_id includeRaw w of
        (Inr resp, w1) \<Rightarrow> (Inr resp, w1)
      | (Inl e, w1) \<Rightarrow>
          (NextResponse_json
             (JObj [(''error'', JStr (err_message e)), (''details'', js_coalesce (err_details e) JNull)])
             (case err_status e of Some st \<Rightarrow> st | None \<Rightarrow> 500),
           w1))"

section \<open>Concrete surroundings\<close>

text \<open>
  A host to run the definitions on: the four variables of \<^verbatim>\<open>.env.local\<close>, \<^verbatim>\<open>JSON.parse\<close> on
  the bodies used below, \<^verbatim>\<open>new URL\<close> on the addresses used below, and a network that
  answers the token endpoint with \<open>token\<close>, the first request to the contact service with
  \<open>first\<close> and the later ones with \<open>later\<close>. The three addresses in \<open>demo_urls\<close> are absolute
  and the parser leaves them as they are; the only other address given to it below has no
  scheme, and the parser rejects it.
\<close>

definition demo_vars :: "(string \<times> string) list" where
  "demo_vars =
     [(''CC_BASE_URL'', ''https://api.cc.email/v3''), (''CC_CLIENT_ID'', ''client-1''),
      (''CC_ACCESS_TOKEN'', ''T1''), (''CC_REFRESH_TOKEN'', ''R1'')]"

definition demo_json :: "(string \<times> jsval) list" where
  \<open>demo_json =
     [(''{"access_token":"T2"}'', JObj [(''access_token'', JStr ''T2'')]),
      (''{"access_token":""}'', JObj [(''access_token'', JStr [])]),
      (''{"contacts":[]}'', JObj [(''contacts'', JArr [])]),
      (''{"error":"invalid_grant"}'', JObj [(''error'', JStr ''invalid_grant'')]),
      (''{"message":"Not found"}'', JObj [(''message'', JStr ''Not found'')]),
      (''null'', JNull)]\<close>

definition demo_urls :: "(string \<times> url) list" where
  "demo_urls =
     [(''https://api.cc.email/v3/contacts'',
       \<lparr>url_head = ''https://api.cc.email/v3/contacts'', url_query = None, url_fragment = None,
        url_searchParams = []\<rparr>),
      (''https://api.cc.email/v3/contacts?limit=50&status=all'',
       \<lparr>url_head = ''https://api.cc.email/v3/contacts'', url_query = Some ''limit=50&status=all'',
        url_fragment = None, url_searchParams = [(''limit'', ''50''), (''status'', ''all'')]\<rparr>),
      (''https://api.cc.email/v3/contacts/%2000000000-0000-0000-0000-00000000000a'',
       \<lparr>url_head = ''https://api.cc.email/v3/contacts/%2000000000-0000-0000-0000-00000000000a'',
        url_query = None, url_fragment = None, url_searchParams = []\<rparr>)]"

definition demo_host :: "(string \<times> string) list \<Rightarrow> response \<Rightarrow> response \<Rightarrow> response \<Rightarrow> host" where
  "demo_host vars token first later =
     \<lparr>env = map_of vars,
      JSON_parse = map_of demo_json,
      URL_parse = map_of demo_urls,
      network = (\<lambda>history req.
         if req_url req = ''https://authz.constantcontact.com/oauth2/default/v1/token''
         then Inr token
         else if history = [] then Inr first else Inr later)\<rparr>"

definition token_T2 :: response where
  \<open>token_T2 = \<lparr>res_status = 200, res_text = ''{"access_token":"T2"}''\<rparr>\<close>

definition unauthorized :: response where
  "unauthorized = \<lparr>res_status = 401, res_text = []\<rparr>"

definition contacts_ok :: response where
  \<open>contacts_ok = \<lparr>res_status = 200, res_text = ''{"contacts":[]}''\<rparr>\<close>

definition list_contacts :: FetchOpts where
  "list_contacts =
     \<lparr>opt_method = None, opt_path = ''/contacts'', opt_query = Some [(''limit'', JNum False 10)],
      opt_body = JUndefined\<rparr>"

text \<open>
  A path that brings its own query, with an entry whose name is in that query; a base
  URL that ends with a slash; and a base URL without a scheme.
\<close>

definition list_active :: FetchOpts where
  "list_active =
     \<lparr>opt_method = None, opt_path = ''/contacts?limit=50&status=all'',
      opt_query = Some [(''limit'', JNum False 10)], opt_body = JUndefined\<rparr>"

definition slash_vars :: "(string \<times> string) list" where
  "slash_vars = (''CC_BASE_URL'', ''https://api.cc.email/v3/'') # tl demo_vars"

definition relative_vars :: "(string \<times> string) list" where
  "relative_vars = (''CC_BASE_URL'', ''api.cc.email/v3'') # tl demo_vars"

definition not_found :: response where
  \<open>not_found = \<lparr>res_status = 404, res_text = ''{"message":"Not found"}''\<rparr>\<close>

definition null_body :: response where
  \<open>null_body = \<lparr>res_status = 200, res_text = ''null''\<rparr>\<close>

definition invalid_grant :: response where
  \<open>invalid_grant = \<lparr>res_status = 400, res_text = ''{"error":"invalid_grant"}''\<rparr>\<close>

definition empty_token :: response where
  \<open>empty_token = \<lparr>res_status = 200, res_text = ''{"access_token":""}''\<rparr>\<close>

definition create_with_zero :: FetchOpts where
  "create_with_zero =
     \<lparr>opt_method = Some ''POST'', opt_path = ''/contacts'', opt_query = None,
      opt_body = JNum False 0\<rparr>"

definition padded_id :: string where
  "padded_id = '' 00000000-0000-0000-0000-00000000000a''"

text \<open>
  The host of the two-request scenario, the state in which two calls wait for their
  first response, and a state in which the task that created promise 0 waits for it.
\<close>

definition burst_host :: host where
  "burst_host = demo_host demo_vars token_T2 unauthorized contacts_ok"

definition two_waiting :: system where
  "two_waiting = call burst_host list_contacts (call burst_host list_contacts (initial_system burst_host))"

definition settled :: "promise_state \<Rightarrow> system" where
  "settled ps =
     \<lparr>accessTokenCache = JStr ''T1'', refreshInFlight = Some 0,
      sent = [ccRequest ''https://api.cc.email/v3/contacts?limit=10'' (JStr ''T1'') list_contacts,
              tokenRequest ''client-1'' ''R1''],
      promises = [ps],
      tasks = [AwaitRefreshOwner ''https://api.cc.email/v3'' list_contacts 0]\<rparr>"

text \<open>A host without the refresh token, and one call waiting for its first response.\<close>

definition unconfigured_host :: host where
  "unconfigured_host = demo_host (butlast demo_vars) token_T2 unauthorized contacts_ok"

definition one_waiting :: system where
  "one_waiting =
     \<lparr>accessTokenCache = JStr ''T1'', refreshInFlight = None,
      sent = [ccRequest ''https://api.cc.email/v3/contacts?limit=10'' (JStr ''T1'') list_contacts],
      promises = [],
      tasks = [AwaitFirst ''https://api.cc.email/v3'' list_contacts]\<rparr>"

section \<open>Evaluation and basic facts\<close>

lemmas url_defs =
  ccUrl_def URL_toString_def URL_searchParams_set_def URLSearchParams_toString_def form_unit_def
  form_plain_def strip_trailing_slash_def digit_char_def nat_to_string.simps

lemmas client_defs =
  requireEnv_def getAccessToken_def env_or_null_def initial_world_def safeJson_def fetch_def
  ccRequest_def ccResult_def ccFetchJsonWithToken_def tokenRequest_def tokenResult_def
  refreshExchange_def refreshAccessToken_def ccFetchJson_def Error_def res_ok_def
  js_coalesce_def js_or_def js_and_def url_defs

lemmas demo_defs =
  demo_host_def demo_vars_def demo_json_def token_T2_def unauthorized_def contacts_ok_def
  list_contacts_def not_found_def null_body_def invalid_grant_def empty_token_def
  create_with_zero_def padded_id_def demo_urls_def list_active_def slash_vars_def
  relative_vars_def

lemmas route_defs =
  ALLOWED_INCLUDE_def parseCsv_def isHex_def uuid_regex_test_def looksUuid_def unreserved_def
  percent_def encode_unit_def encodeURIComponent_def NextResponse_json_def check_include_def
  GET_try_def GET_def trim_def isWhite_def

lemma getAccessToken_keeps:
  "getAccessToken h w = (r, w1) \<Longrightarrow> sent w1 = sent w \<and> refreshInFlight w1 = refreshInFlight w"
  by (auto simp: getAccessToken_def Let_def split: if_splits)

text \<open>
  With the base URL configured and a token at hand, \<^verbatim>\<open>ccFetchJson\<close> is decided by the
  response to its first request.
\<close>

lemma ccFetchJson_first:
  assumes "requireEnv h ''CC_BASE_URL'' = Inr baseUrl"
      and "ccUrl h baseUrl opts = Inr url"
      and "getAccessToken h w = (Inr token, w1)"
      and "network h (sent w1) (ccRequest url token opts) = Inr res"
  shows "ccFetchJson h opts w =
     (case ccResult h res of
        Inr r \<Rightarrow> (Inr r, w1\<lparr>sent := sent w1 @ [ccRequest url token opts]\<rparr>)
      | Inl e \<Rightarrow>
          if err_status e = Some 401
          then (case refreshAccessToken h (w1\<lparr>sent := sent w1 @ [ccRequest url token opts]\<rparr>) of
                  (Inl e', w3) \<Rightarrow> (Inl e', w3)
                | (Inr newToken, w3) \<Rightarrow> ccFetchJsonWithToken h baseUrl newToken opts w3)
          else (Inl e, w1\<lparr>sent := sent w1 @ [ccRequest url token opts]\<rparr>))"
  using assms
  by (simp add: ccFetchJson_def ccFetchJsonWithToken_def fetch_def split: sum.splits)

lemma ccResult_not_ok:
  "\<not> res_ok res \<Longrightarrow>
   \<exists>e. ccResult h res = Inl e \<and> err_status e = Some (res_status res)
     \<and> err_details e =
         (if res_text res = [] then JStr []
          else (case JSON_parse h (res_text res) of
                  None \<Rightarrow> JStr (res_text res)
                | Some v \<Rightarrow> if nullish v then JStr (res_text res) else v))"
  by (simp add: ccResult_def Let_def safeJson_def js_coalesce_def split: option.splits)

lemma ccResult_ok:
  "res_ok res \<Longrightarrow>
   ccResult h res =
     Inr \<lparr>status = res_status res,
          data = (if res_text res = [] then JObj []
                  else (case JSON_parse h (res_text res) of
                          None \<Rightarrow> JObj []
                        | Some v \<Rightarrow> if nullish v then JObj [] else v))\<rparr>"
  by (simp add: ccResult_def Let_def safeJson_def js_coalesce_def split: option.splits)

lemma requireEnv_unset:
  "unset h name \<Longrightarrow> requireEnv h name = Inl (Error (''Missing environment variable: '' @ name))"
  by (auto simp: requireEnv_def unset_def)

lemma requireEnv_set: "\<not> unset h name \<Longrightarrow> \<exists>v. requireEnv h name = Inr v"
  by (auto simp: requireEnv_def unset_def split: option.splits)

lemma ccFetchJsonWithToken_eq:
  "ccUrl h baseUrl opts = Inr url \<Longrightarrow>
   ccFetchJsonWithToken h baseUrl token opts w =
     (attempt_result h (network h (sent w) (ccRequest url token opts)),
      w\<lparr>sent := sent w @ [ccRequest url token opts]\<rparr>)"
  by (simp add: ccFetchJsonWithToken_def fetch_def attempt_result_def split: sum.splits)

lemma ccFetchJsonWithToken_invalid:
  "ccUrl h baseUrl opts = Inl e \<Longrightarrow> ccFetchJsonWithToken h baseUrl token opts w = (Inl e, w)"
  by (simp add: ccFetchJsonWithToken_def)

lemma ccUrl_error:
  assumes "ccUrl h baseUrl opts = Inl e"
  shows "e = Error ''Invalid URL''" and "err_status e = None"
  using assms by (auto simp: ccUrl_def Error_def split: option.splits)

lemma ccFetchJson_unauthorized:
  assumes "requireEnv h ''CC_BASE_URL'' = Inr baseUrl"
      and "ccUrl h baseUrl opts = Inr url"
      and "getAccessToken h w = (Inr token, w1)"
      and "network h (sent w1) (ccRequest url token opts) = Inr res"
      and "res_status res = 401"
      and "refreshAccessToken h (w1\<lparr>sent := sent w @ [ccRequest url token opts]\<rparr>) = (r, w3)"
  shows "ccFetchJson h opts w =
           (case r of
              Inl e \<Rightarrow> (Inl e, w3)
            | Inr newToken \<Rightarrow>
                (attempt_result h (network h (sent w3) (ccRequest url newToken opts)),
                 w3\<lparr>sent := sent w3 @ [ccRequest url newToken opts]\<rparr>))"
proof -
  have s: "sent w1 = sent w" using getAccessToken_keeps [OF assms(3)] by simp
  have nok: "\<not> res_ok res" using assms(5) by (simp add: res_ok_def)
  from ccResult_not_ok [OF nok, of h] assms(5) obtain e1 where
    e1: "ccResult h res = Inl e1" "err_status e1 = Some 401" by auto
  show ?thesis
    using ccFetchJson_first [OF assms(1,2,3,4)] e1 s assms(6)
    by (simp add: ccFetchJsonWithToken_eq [OF assms(2)] split: sum.splits)
qed

lemma attempt_result_not_ok:
  "\<not> res_ok res \<Longrightarrow> \<exists>e. attempt_result h (Inr res) = Inl e \<and> err_status e = Some (res_status res)"
  using ccResult_not_ok [of res h] by (auto simp: attempt_result_def)

lemma tokenResult_not_ok:
  "\<not> res_ok res \<Longrightarrow>
   \<exists>e. tokenResult h res = Inl e \<and> err_status e = Some (res_status res)
     \<and> err_details e =
         (if res_text res = [] then JStr []
          else (case JSON_parse h (res_text res) of
                  None \<Rightarrow> JStr (res_text res)
                | Some v \<Rightarrow> if nullish v then JStr (res_text res) else v))"
  by (simp add: tokenResult_def Let_def safeJson_def js_coalesce_def split: option.splits)

lemma tokenResult_ok:
  assumes "res_ok res" and "res_text res \<noteq> []"
      and "JSON_parse h (res_text res) = Some (JObj kvs)"
      and "map_of kvs ''access_token'' = Some tok"
  shows "tokenResult h res =
           (if truthy tok then Inr tok
            else Inl (Error ''Token refresh succeeded but no access_token was returned.''))"
  using assms by (simp add: tokenResult_def Let_def safeJson_def js_coalesce_def)

lemma refreshAccessToken_exchange:
  assumes "refreshInFlight w = None"
      and "requireEnv h ''CC_CLIENT_ID'' = Inr clientId"
      and "requireEnv h ''CC_REFRESH_TOKEN'' = Inr refreshToken"
      and "network h (sent w) (tokenRequest clientId refreshToken) = Inr res"
  shows "refreshAccessToken h w =
     (case tokenResult h res of
        Inl e \<Rightarrow> (Inl e, w\<lparr>sent := sent w @ [tokenRequest clientId refreshToken]\<rparr>)
      | Inr tok \<Rightarrow>
          (Inr tok, w\<lparr>accessTokenCache := tok,
                      sent := sent w @ [tokenRequest clientId refreshToken]\<rparr>))"
  using assms
  by (cases w) (simp add: refreshAccessToken_def refreshExchange_def fetch_def split: sum.splits)

lemma refreshAccessToken_appends: "\<exists>reqs. sent (snd (refreshAccessToken h w)) = sent w @ reqs"
  by (cases w)
     (auto simp: refreshAccessToken_def refreshExchange_def fetch_def
           split: option.splits sum.splits prod.splits)

lemma refreshAccessToken_sent:
  "\<exists>toks. sent (snd (refreshAccessToken h w)) = sent w @ toks \<and> length toks \<le> 1
          \<and> (\<forall>t \<in> set toks. \<exists>c r. t = tokenRequest c r)"
  by (cases w)
     (auto simp: refreshAccessToken_def refreshExchange_def fetch_def
           split: option.splits sum.splits prod.splits)

lemma refreshAccessToken_empty_slot:
  assumes "refreshInFlight w = None"
  shows "refreshAccessToken h w = refreshExchange h w"
    and "refreshInFlight (snd (refreshAccessToken h w)) = None"
proof -
  have k: "refreshInFlight (snd (refreshExchange h w)) = None"
    using assms
    by (auto simp: refreshExchange_def fetch_def split: sum.splits prod.splits)
  obtain r w1 where e: "refreshExchange h w = (r, w1)" by (cases "refreshExchange h w")
  with k have "w1\<lparr>refreshInFlight := None\<rparr> = w1" by simp
  with e assms show "refreshAccessToken h w = refreshExchange h w"
    by (simp add: refreshAccessToken_def)
  with k show "refreshInFlight (snd (refreshAccessToken h w)) = None" by simp
qed

lemma config_error_names:
  assumes "unset h ''CC_CLIENT_ID'' \<or> unset h ''CC_REFRESH_TOKEN''"
  shows "\<exists>name. (name = ''CC_CLIENT_ID'' \<or> name = ''CC_REFRESH_TOKEN'') \<and> unset h name
           \<and> config_error h = Error (''Missing environment variable: '' @ name)"
  using assms by (auto simp: config_error_def)

lemma refreshAccessToken_unconfigured:
  assumes "unset h ''CC_CLIENT_ID'' \<or> unset h ''CC_REFRESH_TOKEN''" "refreshInFlight w = None"
  shows "refreshAccessToken h w = (Inl (config_error h), w)"
proof (cases "unset h ''CC_CLIENT_ID''")
  case True
  from requireEnv_unset [OF True] True assms(2) show ?thesis
    by (cases w) (simp add: refreshAccessToken_def refreshExchange_def config_error_def)
next
  case False
  with assms(1) have u: "unset h ''CC_REFRESH_TOKEN''" by simp
  from requireEnv_set [OF False] obtain c where "requireEnv h ''CC_CLIENT_ID'' = Inr c" ..
  with requireEnv_unset [OF u] False assms(2) show ?thesis
    by (cases w) (simp add: refreshAccessToken_def refreshExchange_def config_error_def)
qed

lemma ccFetchJson_sends_with_cached_token:
  assumes "requireEnv h ''CC_BASE_URL'' = Inr baseUrl"
      and "ccUrl h baseUrl opts = Inr url"
      and "truthy (accessTokenCache w)"
  shows "\<exists>reqs. sent (snd (ccFetchJson h opts w))
                 = sent w @ ccRequest url (accessTokenCache w) opts # reqs"
proof -
  let ?w2 = "w\<lparr>sent := sent w @ [ccRequest url (accessTokenCache w) opts]\<rparr>"
  have g: "getAccessToken h w = (Inr (accessTokenCache w), w)"
    using assms(3) by (simp add: getAccessToken_def)
  obtain r w3 where r: "refreshAccessToken h ?w2 = (r, w3)" by (cases "refreshAccessToken h ?w2")
  from refreshAccessToken_appends [of h ?w2] r obtain reqs where
    "sent w3 = sent w @ ccRequest url (accessTokenCache w) opts # reqs" by auto
  then show ?thesis
    using assms(1) g r
    by (auto simp: ccFetchJson_def ccFetchJsonWithToken_eq [OF assms(2)] split: sum.splits)
qed

section \<open>Request construction\<close>

subsection \<open>Setting search parameters\<close>

lemma searchParams_set_fresh:
  "k \<notin> fst ` set ps \<Longrightarrow> searchParams_set k v ps = ps @ [(k, v)]"
  by (induction ps) auto

lemma searchParams_set_named:
  "filter (\<lambda>p. fst p = k) (searchParams_set k v ps) = [(k, v)]"
  by (induction ps) (auto simp: filter_empty_conv)

lemma searchParams_set_others:
  "\<forall>x. \<not> P (k, x) \<Longrightarrow> filter P (searchParams_set k v ps) = filter P ps"
proof (induction ps)
  case Nil
  then show ?case by simp
next
  case (Cons p ps)
  show ?case
  proof (cases "fst p = k")
    case True
    then have np: "\<not> P p" using Cons.prems by (cases p) auto
    have "filter P (filter (\<lambda>q. fst q \<noteq> k) ps) = filter P ps"
      using Cons.prems by (auto intro!: filter_cong)
    with True np Cons.prems show ?thesis by simp
  next
    case False
    with Cons show ?thesis by simp
  qed
qed

lemma fold_set_others:
  "\<forall>k \<in> fst ` set es. \<forall>x. \<not> P (k, x) \<Longrightarrow>
   filter P (fold (\<lambda>(k, v). searchParams_set k (f v)) es ps) = filter P ps"
proof (induction es arbitrary: ps)
  case Nil
  then show ?case by simp
next
  case (Cons e es)
  obtain k v where e: "e = (k, v)" by (cases e)
  have a: "\<forall>x. \<not> P (k, x)" and b: "\<forall>k \<in> fst ` set es. \<forall>x. \<not> P (k, x)"
    using Cons.prems e by auto
  from Cons.IH [OF b, of "searchParams_set k (f v) ps"] searchParams_set_others [OF a] e
  show ?case by simp
qed

lemma fold_set_named:
  "distinct (map fst es) \<Longrightarrow> (k, v) \<in> set es \<Longrightarrow>
   filter (\<lambda>p. fst p = k) (fold (\<lambda>(k, v). searchParams_set k (f v)) es ps) = [(k, f v)]"
proof (induction es arbitrary: ps)
  case Nil
  then show ?case by simp
next
  case (Cons e es)
  obtain k1 v1 where e: "e = (k1, v1)" by (cases e)
  have d: "distinct (map fst es)" and fresh: "k1 \<notin> fst ` set es" using Cons.prems(1) e by auto
  show ?case
  proof (cases "(k, v) \<in> set es")
    case True
    from Cons.IH [OF d True] e show ?thesis by simp
  next
    case False
    with Cons.prems(2) e have kv: "k = k1" "v = v1" by auto
    have "\<forall>k' \<in> fst ` set es. \<forall>x. \<not> (\<lambda>p. fst p = k1) (k', x)" using fresh by auto
    from fold_set_others [OF this, of f "searchParams_set k1 (f v1) ps"]
    show ?thesis using e kv by (simp add: searchParams_set_named)
  qed
qed

lemma fold_set_fresh:
  "distinct (map fst es) \<Longrightarrow> fst ` set es \<inter> fst ` set ps = {} \<Longrightarrow>
   fold (\<lambda>(k, v). searchParams_set k (f v)) es ps = ps @ map (\<lambda>(k, v). (k, f v)) es"
proof (induction es arbitrary: ps)
  case Nil
  then show ?case by simp
next
  case (Cons e es)
  obtain k v where e: "e = (k, v)" by (cases e)
  have fresh: "k \<notin> fst ` set ps" using Cons.prems(2) e by auto
  have d: "distinct (map fst es)" and kq: "k \<notin> fst ` set es" using Cons.prems(1) e by auto
  have "fst ` set es \<inter> fst ` set (ps @ [(k, f v)]) = {}" using Cons.prems(2) kq by auto
  from Cons.IH [OF d this] e fresh show ?case by (simp add: searchParams_set_fresh)
qed

text \<open>The loop of lines 57 to 61 on the URL, by the entries that are not \<^verbatim>\<open>undefined\<close>.\<close>

lemma fold_URL_searchParams_set:
  "fold (\<lambda>(k, v) u. if v \<noteq> JUndefined then URL_searchParams_set k (js_String v) u else u) q u
     = (if filter (\<lambda>(k, v). v \<noteq> JUndefined) q = [] then u
        else u\<lparr>url_query :=
                 Some (URLSearchParams_toString
                         (fold (\<lambda>(k, v). searchParams_set k (js_String v))
                            (filter (\<lambda>(k, v). v \<noteq> JUndefined) q) (url_searchParams u))),
               url_searchParams :=
                 fold (\<lambda>(k, v). searchParams_set k (js_String v))
                   (filter (\<lambda>(k, v). v \<noteq> JUndefined) q) (url_searchParams u)\<rparr>)"
proof (induction q arbitrary: u)
  case Nil
  then show ?case by simp
next
  case (Cons e q)
  obtain k v where e: "e = (k, v)" by (cases e)
  show ?case
  proof (cases "v = JUndefined")
    case True
    with Cons.IH [of u] e show ?thesis by simp
  next
    case False
    with Cons.IH [of "URL_searchParams_set k (js_String v) u"] e show ?thesis
      by (simp add: URL_searchParams_set_def)
  qed
qed

lemma ccUrl_eq:
  assumes "URL_parse h (strip_trailing_slash baseUrl @ opt_path opts) = Some u"
  shows "ccUrl h baseUrl opts =
           Inr (let es = (case opt_query opts of
                            None \<Rightarrow> [] | Some q \<Rightarrow> filter (\<lambda>(k, v). v \<noteq> JUndefined) q)
                in if es = [] then URL_toString u
                   else URL_toString
                          (u\<lparr>url_query :=
                               Some (URLSearchParams_toString
                                       (fold (\<lambda>(k, v). searchParams_set k (js_String v)) es
                                          (url_searchParams u)))\<rparr>))"
  using assms
  by (simp add: ccUrl_def fold_URL_searchParams_set URL_toString_def split: option.splits)

subsection \<open>The requests of a call\<close>

lemma getAccessToken_current:
  "getAccessToken h w = (Inr token, w1) \<Longrightarrow>
   token = (if truthy (accessTokenCache w) then accessTokenCache w
            else env_or_null h ''CC_ACCESS_TOKEN'')"
  by (auto simp: getAccessToken_def Let_def split: if_splits)

lemma ccFetchJson_invalid_url:
  assumes "requireEnv h ''CC_BASE_URL'' = Inr baseUrl"
      and "getAccessToken h w = (Inr token, w1)"
      and "URL_parse h (strip_trailing_slash baseUrl @ opt_path opts) = None"
  shows "ccFetchJson h opts w = (Inl (Error ''Invalid URL''), w1)"
proof -
  have "ccUrl h baseUrl opts = Inl (Error ''Invalid URL'')" using assms(3) by (simp add: ccUrl_def)
  from ccFetchJsonWithToken_invalid [OF this] assms(1,2) show ?thesis
    by (simp add: ccFetchJson_def Error_def)
qed

lemma ccFetchJson_sent:
  assumes "requireEnv h ''CC_BASE_URL'' = Inr baseUrl"
      and "ccUrl h baseUrl opts = Inr url"
      and "getAccessToken h w = (Inr token, w1)"
  shows "\<exists>rest. sent (snd (ccFetchJson h opts w)) = sent w @ ccRequest url token opts # rest
           \<and> (\<forall>r \<in> set rest. (\<exists>c rt. r = tokenRequest c rt)
                             \<or> (\<exists>newToken. r = ccRequest url newToken opts))"
proof -
  let ?req = "ccRequest url token opts"
  let ?w2 = "w1\<lparr>sent := sent w @ [?req]\<rparr>"
  have s: "sent w1 = sent w" using getAccessToken_keeps [OF assms(3)] by simp
  have cc: "ccFetchJson h opts w =
              (case attempt_result h (network h (sent w) ?req) of
                 Inr r \<Rightarrow> (Inr r, ?w2)
               | Inl e \<Rightarrow>
                   if err_status e = Some 401
                   then (case refreshAccessToken h ?w2 of
                           (Inl e', w3) \<Rightarrow> (Inl e', w3)
                         | (Inr newToken, w3) \<Rightarrow> ccFetchJsonWithToken h baseUrl newToken opts w3)
                   else (Inl e, ?w2))"
    using assms(1,3) s
    by (simp add: ccFetchJson_def ccFetchJsonWithToken_eq [OF assms(2)] split: sum.splits)
  obtain r w3 where r: "refreshAccessToken h ?w2 = (r, w3)" by (cases "refreshAccessToken h ?w2")
  from refreshAccessToken_sent [of h ?w2] r obtain toks where
    toks: "sent w3 = sent w @ ?req # toks" "\<forall>t \<in> set toks. \<exists>c rt. t = tokenRequest c rt"
    by auto
  show ?thesis
  proof (cases "attempt_result h (network h (sent w) ?req)")
    case (Inr res)
    with cc have "sent (snd (ccFetchJson h opts w)) = sent w @ ?req # []" by simp
    then show ?thesis by (intro exI [of _ "[]"]) simp
  next
    case (Inl e)
    show ?thesis
    proof (cases "err_status e = Some 401")
      case False
      with cc Inl have "sent (snd (ccFetchJson h opts w)) = sent w @ ?req # []" by simp
      then show ?thesis by (intro exI [of _ "[]"]) simp
    next
      case True
      show ?thesis
      proof (cases r)
        case (Inl e')
        with cc \<open>attempt_result h (network h (sent w) ?req) = Inl e\<close> True r toks(1)
        have "sent (snd (ccFetchJson h opts w)) = sent w @ ?req # toks" by simp
        with toks(2) show ?thesis by (intro exI [of _ toks]) simp
      next
        case (Inr newToken)
        with cc \<open>attempt_result h (network h (sent w) ?req) = Inl e\<close> True r toks(1)
        have "sent (snd (ccFetchJson h opts w))
                = sent w @ ?req # (toks @ [ccRequest url newToken opts])"
          by (simp add: ccFetchJsonWithToken_eq [OF assms(2)])
        moreover have "\<forall>r \<in> set (toks @ [ccRequest url newToken opts]).
                          (\<exists>c rt. r = tokenRequest c rt) \<or> (\<exists>newToken. r = ccRequest url newToken opts)"
          using toks(2) by auto
        ultimately show ?thesis by (intro exI [of _ "toks @ [ccRequest url newToken opts]"]) simp
      qed
    qed
  qed
qed

text \<open>
  C8, as amended. With the base URL configured and a token at hand, the token is the
  current one: the cached token, or the variable \<^verbatim>\<open>CC_ACCESS_TOKEN\<close> where the cache holds
  none. The address is the base URL without one trailing slash, followed by the path.
  Where the \<^verbatim>\<open>URL\<close> constructor rejects it, \<^verbatim>\<open>ccFetchJson\<close> throws and nothing is sent. Where
  it yields the URL \<open>u\<close>, the first request of the call is sent to \<open>u\<close>, unchanged if no
  query entry has a value other than \<^verbatim>\<open>undefined\<close>, and with the query replaced by the
  serialisation of the parameters \<open>ps\<close> otherwise: each such entry is set, in order, in
  the parameters that the path brought. For entries with distinct names, \<open>ps\<close> has exactly
  one parameter of each entry's name, with the value converted by \<^verbatim>\<open>String\<close>, the
  parameters of other names are those of the path, and if no entry's name was in the path
  the entries are appended. The method is the given one or \<^verbatim>\<open>GET\<close>; the headers are
  \<^verbatim>\<open>Authorization: Bearer\<close> with the token and \<^verbatim>\<open>Accept: application/json\<close>, followed by
  \<^verbatim>\<open>Content-Type: application/json\<close> exactly when the body is truthy; the request carries
  the JSON serialisation of the body exactly when the body is truthy, and no body
  otherwise. Every later request of the call is a request to the token endpoint or the
  first request again with another token in the \<^verbatim>\<open>Authorization\<close> header.
\<close>

theorem request_construction:
  assumes "requireEnv h ''CC_BASE_URL'' = Inr baseUrl"
      and "getAccessToken h w = (Inr token, w1)"
  shows "token = (if truthy (accessTokenCache w) then accessTokenCache w
                  else env_or_null h ''CC_ACCESS_TOKEN'')
         \<and> (URL_parse h (strip_trailing_slash baseUrl @ opt_path opts) = None \<longrightarrow>
              ccFetchJson h opts w = (Inl (Error ''Invalid URL''), w1) \<and> sent w1 = sent w)
         \<and> (\<forall>u. URL_parse h (strip_trailing_slash baseUrl @ opt_path opts) = Some u \<longrightarrow>
              (\<exists>req rest es ps.
                 sent (snd (ccFetchJson h opts w)) = sent w @ req # rest
                 \<and> es = (case opt_query opts of
                           None \<Rightarrow> [] | Some q \<Rightarrow> filter (\<lambda>(k, v). v \<noteq> JUndefined) q)
                 \<and> ps = fold (\<lambda>(k, v). searchParams_set k (js_String v)) es (url_searchParams u)
                 \<and> req_url req =
                     (if es = [] then URL_toString u
                      else URL_toString (u\<lparr>url_query := Some (URLSearchParams_toString ps)\<rparr>))
                 \<and> (distinct (map fst es) \<longrightarrow>
                      (\<forall>(k, v) \<in> set es. filter (\<lambda>p. fst p = k) ps = [(k, js_String v)])
                      \<and> filter (\<lambda>p. fst p \<notin> fst ` set es) ps
                          = filter (\<lambda>p. fst p \<notin> fst ` set es) (url_searchParams u)
                      \<and> (fst ` set es \<inter> fst ` set (url_searchParams u) = {} \<longrightarrow>
                           ps = url_searchParams u @ map (\<lambda>(k, v). (k, js_String v)) es))
                 \<and> req_method req = (case opt_method opts of None \<Rightarrow> ''GET'' | Some m \<Rightarrow> m)
                 \<and> req_headers req
                     = (if truthy (opt_body opts)
                        then [(''Authorization'', ''Bearer '' @ js_String token),
                              (''Accept'', ''application/json''),
                              (''Content-Type'', ''application/json'')]
                        else [(''Authorization'', ''Bearer '' @ js_String token),
                              (''Accept'', ''application/json'')])
                 \<and> req_body req
                     = (if truthy (opt_body opts) then JSON_stringify (opt_body opts) else NoBody)
                 \<and> req_cache req = ''no-store''
                 \<and> (\<forall>r \<in> set rest.
                        (\<exists>c rt. r = tokenRequest c rt)
                        \<or> (\<exists>newToken.
                              r = req\<lparr>req_headers :=
                                       (''Authorization'', ''Bearer '' @ js_String newToken)
                                       # tl (req_headers req)\<rparr>))))"
proof (intro conjI allI impI)
  show "token = (if truthy (accessTokenCache w) then accessTokenCache w
                 else env_or_null h ''CC_ACCESS_TOKEN'')"
    by (rule getAccessToken_current [OF assms(2)])
next
  assume "URL_parse h (strip_trailing_slash baseUrl @ opt_path opts) = None"
  then show "ccFetchJson h opts w = (Inl (Error ''Invalid URL''), w1)"
    by (rule ccFetchJson_invalid_url [OF assms])
next
  show "sent w1 = sent w" using getAccessToken_keeps [OF assms(2)] by simp
next
  fix u
  assume u: "URL_parse h (strip_trailing_slash baseUrl @ opt_path opts) = Some u"
  define es where "es = (case opt_query opts of
                           None \<Rightarrow> [] | Some q \<Rightarrow> filter (\<lambda>(k, v). v \<noteq> JUndefined) q)"
  define ps where "ps = fold (\<lambda>(k, v). searchParams_set k (js_String v)) es (url_searchParams u)"
  define url where "url = (if es = [] then URL_toString u
                           else URL_toString (u\<lparr>url_query := Some (URLSearchParams_toString ps)\<rparr>))"
  define req where "req = ccRequest url token opts"
  have cu: "ccUrl h baseUrl opts = Inr url"
    using ccUrl_eq [OF u] by (simp add: url_def ps_def es_def Let_def)
  from ccFetchJson_sent [OF assms(1) cu assms(2)] obtain rest where
    rest: "sent (snd (ccFetchJson h opts w)) = sent w @ req # rest"
          "\<forall>r \<in> set rest. (\<exists>c rt. r = tokenRequest c rt)
                          \<or> (\<exists>newToken. r = ccRequest url newToken opts)"
    unfolding req_def by blast
  have again: "ccRequest url newToken opts
                 = req\<lparr>req_headers := (''Authorization'', ''Bearer '' @ js_String newToken)
                                        # tl (req_headers req)\<rparr>" for newToken
    by (simp add: req_def ccRequest_def)
  have later: "\<forall>r \<in> set rest.
                 (\<exists>c rt. r = tokenRequest c rt)
                 \<or> (\<exists>newToken.
                       r = req\<lparr>req_headers := (''Authorization'', ''Bearer '' @ js_String newToken)
                                               # tl (req_headers req)\<rparr>)"
    using rest(2) again by metis
  have named: "\<forall>(k, v) \<in> set es. filter (\<lambda>p. fst p = k) ps = [(k, js_String v)]"
    if "distinct (map fst es)"
    using fold_set_named [OF that, of _ _ js_String "url_searchParams u"] by (auto simp: ps_def)
  have others: "filter (\<lambda>p. fst p \<notin> fst ` set es) ps
                  = filter (\<lambda>p. fst p \<notin> fst ` set es) (url_searchParams u)"
    unfolding ps_def by (rule fold_set_others) simp
  have fresh: "ps = url_searchParams u @ map (\<lambda>(k, v). (k, js_String v)) es"
    if "distinct (map fst es)" "fst ` set es \<inter> fst ` set (url_searchParams u) = {}"
    unfolding ps_def by (rule fold_set_fresh [OF that])
  have fields:
    "req_url req = url"
    "req_method req = (case opt_method opts of None \<Rightarrow> ''GET'' | Some m \<Rightarrow> m)"
    "req_headers req
       = (if truthy (opt_body opts)
          then [(''Authorization'', ''Bearer '' @ js_String token),
                (''Accept'', ''application/json''), (''Content-Type'', ''application/json'')]
          else [(''Authorization'', ''Bearer '' @ js_String token),
                (''Accept'', ''application/json'')])"
    "req_body req = (if truthy (opt_body opts) then JSON_stringify (opt_body opts) else NoBody)"
    "req_cache req = ''no-store''"
    by (simp_all add: req_def ccRequest_def)
  show "\<exists>req rest es ps.
                 sent (snd (ccFetchJson h opts w)) = sent w @ req # rest
                 \<and> es = (case opt_query opts of
                           None \<Rightarrow> [] | Some q \<Rightarrow> filter (\<lambda>(k, v). v \<noteq> JUndefined) q)
                 \<and> ps = fold (\<lambda>(k, v). searchParams_set k (js_String v)) es (url_searchParams u)
                 \<and> req_url req =
                     (if es = [] then URL_toString u
                      else URL_toString (u\<lparr>url_query := Some (URLSearchParams_toString ps)\<rparr>))
                 \<and> (distinct (map fst es) \<longrightarrow>
                      (\<forall>(k, v) \<in> set es. filter (\<lambda>p. fst p = k) ps = [(k, js_String v)])
                      \<and> filter (\<lambda>p. fst p \<notin> fst ` set es) ps
                          = filter (\<lambda>p. fst p \<notin> fst ` set es) (url_searchParams u)
                      \<and> (fst ` set es \<inter> fst ` set (url_searchParams u) = {} \<longrightarrow>
                           ps = url_searchParams u @ map (\<lambda>(k, v). (k, js_String v)) es))
                 \<and> req_method req = (case opt_method opts of None \<Rightarrow> ''GET'' | Some m \<Rightarrow> m)
                 \<and> req_headers req
                     = (if truthy (opt_body opts)
                        then [(''Authorization'', ''Bearer '' @ js_String token),
                              (''Accept'', ''application/json''),
                              (''Content-Type'', ''application/json'')]
                        else [(''Authorization'', ''Bearer '' @ js_String token),
                              (''Accept'', ''application/json'')])
                 \<and> req_body req
                     = (if truthy (opt_body opts) then JSON_stringify (opt_body opts) else NoBody)
                 \<and> req_cache req = ''no-store''
                 \<and> (\<forall>r \<in> set rest.
                        (\<exists>c rt. r = tokenRequest c rt)
                        \<or> (\<exists>newToken.
                              r = req\<lparr>req_headers :=
                                       (''Authorization'', ''Bearer '' @ js_String newToken)
                                       # tl (req_headers req)\<rparr>))"
    apply (rule exI [of _ req])
    apply (rule exI [of _ rest])
    apply (rule exI [of _ es])
    apply (rule exI [of _ ps])
    using rest(1) es_def ps_def fields later named others fresh
    unfolding url_def
    apply (intro conjI impI)
    apply simp_all
    done
qed

theorem request_construction_witness:
  "requireEnv (demo_host demo_vars token_T2 contacts_ok contacts_ok) ''CC_BASE_URL''
     = Inr ''https://api.cc.email/v3''
   \<and> getAccessToken (demo_host demo_vars token_T2 contacts_ok contacts_ok)
         (initial_world (demo_host demo_vars token_T2 contacts_ok contacts_ok))
       = (Inr (JStr ''T1''), initial_world (demo_host demo_vars token_T2 contacts_ok contacts_ok))
   \<and> URL_parse (demo_host demo_vars token_T2 contacts_ok contacts_ok)
         ''https://api.cc.email/v3/contacts''
       = Some \<lparr>url_head = ''https://api.cc.email/v3/contacts'', url_query = None,
               url_fragment = None, url_searchParams = []\<rparr>
   \<and> (\<exists>req rest.
         sent (snd (ccFetchJson (demo_host demo_vars token_T2 contacts_ok contacts_ok) list_contacts
                      (initial_world (demo_host demo_vars token_T2 contacts_ok contacts_ok))))
           = req # rest
         \<and> req_url req = ''https://api.cc.email/v3/contacts?limit=10''
         \<and> req_method req = ''GET''
         \<and> req_headers req = [(''Authorization'', ''Bearer T1''), (''Accept'', ''application/json'')]
         \<and> req_body req = NoBody)
   \<and> URL_parse (demo_host demo_vars token_T2 contacts_ok contacts_ok)
         ''https://api.cc.email/v3/contacts?limit=50&status=all''
       = Some \<lparr>url_head = ''https://api.cc.email/v3/contacts'',
               url_query = Some ''limit=50&status=all'', url_fragment = None,
               url_searchParams = [(''limit'', ''50''), (''status'', ''all'')]\<rparr>
   \<and> (\<exists>req rest.
         sent (snd (ccFetchJson (demo_host demo_vars token_T2 contacts_ok contacts_ok) list_active
                      (initial_world (demo_host demo_vars token_T2 contacts_ok contacts_ok))))
           = req # rest
         \<and> req_url req = ''https://api.cc.email/v3/contacts?limit=10&status=all'')
   \<and> requireEnv (demo_host relative_vars token_T2 contacts_ok contacts_ok) ''CC_BASE_URL''
       = Inr ''api.cc.email/v3''
   \<and> URL_parse (demo_host relative_vars token_T2 contacts_ok contacts_ok)
         ''api.cc.email/v3/contacts'' = None
   \<and> ccFetchJson (demo_host relative_vars token_T2 contacts_ok contacts_ok) list_contacts
         (initial_world (demo_host relative_vars token_T2 contacts_ok contacts_ok))
       = (Inl (Error ''Invalid URL''),
          initial_world (demo_host relative_vars token_T2 contacts_ok contacts_ok))"
proof -
  let ?h = "demo_host demo_vars token_T2 contacts_ok contacts_ok"
  let ?r = "demo_host relative_vars token_T2 contacts_ok contacts_ok"
  let ?u1 = "\<lparr>url_head = ''https://api.cc.email/v3/contacts'', url_query = None,
              url_fragment = None, url_searchParams = []\<rparr>"
  let ?u2 = "\<lparr>url_head = ''https://api.cc.email/v3/contacts'',
              url_query = Some ''limit=50&status=all'', url_fragment = None,
              url_searchParams = [(''limit'', ''50''), (''status'', ''all'')]\<rparr>"
  have h1: "requireEnv ?h ''CC_BASE_URL'' = Inr ''https://api.cc.email/v3''"
    by (simp add: requireEnv_def demo_host_def demo_vars_def)
  have h2: "getAccessToken ?h (initial_world ?h) = (Inr (JStr ''T1''), initial_world ?h)"
    by (simp add: getAccessToken_def initial_world_def env_or_null_def demo_host_def demo_vars_def)
  have p1: "URL_parse ?h ''https://api.cc.email/v3/contacts'' = Some ?u1"
    by (simp add: demo_host_def demo_urls_def)
  have p2: "URL_parse ?h ''https://api.cc.email/v3/contacts?limit=50&status=all'' = Some ?u2"
    by (simp add: demo_host_def demo_urls_def)
  have a1: "URL_parse ?h (strip_trailing_slash ''https://api.cc.email/v3'' @ opt_path list_contacts)
              = Some ?u1"
    using p1 by (simp add: strip_trailing_slash_def list_contacts_def)
  have a2: "URL_parse ?h (strip_trailing_slash ''https://api.cc.email/v3'' @ opt_path list_active)
              = Some ?u2"
    using p2 by (simp add: strip_trailing_slash_def list_active_def)
  have s0: "sent (initial_world ?h) = []" by (simp add: initial_world_def)
  have n: "nat_to_string 10 = ''10''" by (simp add: nat_to_string.simps digit_char_def)
  from request_construction [OF h1 h2, of list_contacts, THEN conjunct2, THEN conjunct2,
         rule_format, OF a1]
  have c1: "\<exists>req rest.
         sent (snd (ccFetchJson ?h list_contacts (initial_world ?h))) = req # rest
         \<and> req_url req = ''https://api.cc.email/v3/contacts?limit=10''
         \<and> req_method req = ''GET''
         \<and> req_headers req = [(''Authorization'', ''Bearer T1''), (''Accept'', ''application/json'')]
         \<and> req_body req = NoBody"
    apply (elim exE conjE)
    subgoal for req rest es ps
      apply (rule exI [of _ req])
      apply (rule exI [of _ rest])
      apply (simp add: s0 n list_contacts_def URL_toString_def URLSearchParams_toString_def
               form_unit_def form_plain_def)
      done
    done
  from request_construction [OF h1 h2, of list_active, THEN conjunct2, THEN conjunct2,
         rule_format, OF a2]
  have c2: "\<exists>req rest.
         sent (snd (ccFetchJson ?h list_active (initial_world ?h))) = req # rest
         \<and> req_url req = ''https://api.cc.email/v3/contacts?limit=10&status=all''"
    apply (elim exE conjE)
    subgoal for req rest es ps
      apply (rule exI [of _ req])
      apply (rule exI [of _ rest])
      apply (simp add: s0 n list_active_def URL_toString_def URLSearchParams_toString_def
               form_unit_def form_plain_def)
      done
    done
  have r1: "requireEnv ?r ''CC_BASE_URL'' = Inr ''api.cc.email/v3''"
    by (simp add: requireEnv_def demo_host_def relative_vars_def)
  have r2: "getAccessToken ?r (initial_world ?r) = (Inr (JStr ''T1''), initial_world ?r)"
    by (simp add: getAccessToken_def initial_world_def env_or_null_def demo_host_def
          relative_vars_def demo_vars_def)
  have p3: "URL_parse ?r ''api.cc.email/v3/contacts'' = None"
    by (simp add: demo_host_def demo_urls_def)
  have a3: "URL_parse ?r (strip_trailing_slash ''api.cc.email/v3'' @ opt_path list_contacts) = None"
    using p3 by (simp add: strip_trailing_slash_def list_contacts_def)
  from request_construction [OF r1 r2, of list_contacts, THEN conjunct2, THEN conjunct1,
         rule_format, OF a3]
  have c3: "ccFetchJson ?r list_contacts (initial_world ?r) = (Inl (Error ''Invalid URL''), initial_world ?r)"
    by (rule conjunct1)
  from h1 h2 p1 c1 p2 c2 r1 p3 c3 show ?thesis by (intro conjI)
qed

text \<open>
  The claim as stated sends the body and its content type whenever a body is supplied,
  to the base URL followed by the path, with the query entries appended. A supplied body
  \<^verbatim>\<open>0\<close> is falsy: the request has no body and no content type (lines 68 and 70). A path
  that brings \<^verbatim>\<open>limit=50\<close> and the entry \<^verbatim>\<open>limit: 10\<close> give one parameter \<^verbatim>\<open>limit\<close>, in the
  place of the old one (line 59). And a base URL that ends in a slash loses it (line 55).
\<close>

theorem falsy_body_counterexample:
  "opt_body create_with_zero = JNum False 0
   \<and> map req_body
         (sent (snd (ccFetchJson (demo_host demo_vars token_T2 contacts_ok contacts_ok)
                       create_with_zero
                       (initial_world (demo_host demo_vars token_T2 contacts_ok contacts_ok)))))
       = [NoBody]
   \<and> map req_headers
         (sent (snd (ccFetchJson (demo_host demo_vars token_T2 contacts_ok contacts_ok)
                       create_with_zero
                       (initial_world (demo_host demo_vars token_T2 contacts_ok contacts_ok)))))
       = [[(''Authorization'', ''Bearer T1''), (''Accept'', ''application/json'')]]
   \<and> opt_path list_active = ''/contacts?limit=50&status=all''
   \<and> opt_query list_active = Some [(''limit'', JNum False 10)]
   \<and> map req_url
         (sent (snd (ccFetchJson (demo_host demo_vars token_T2 contacts_ok contacts_ok)
                       list_active
                       (initial_world (demo_host demo_vars token_T2 contacts_ok contacts_ok)))))
       = [''https://api.cc.email/v3/contacts?limit=10&status=all'']
   \<and> env (demo_host slash_vars token_T2 contacts_ok contacts_ok) ''CC_BASE_URL''
       = Some ''https://api.cc.email/v3/''
   \<and> map req_url
         (sent (snd (ccFetchJson (demo_host slash_vars token_T2 contacts_ok contacts_ok)
                       create_with_zero
                       (initial_world (demo_host slash_vars token_T2 contacts_ok contacts_ok)))))
       = [''https://api.cc.email/v3/contacts'']"
  by (simp add: client_defs demo_defs)

section \<open>Successful responses\<close>

text \<open>
  C4, as amended. Success pass-through with lenient body parsing. When the first response
  of an execute call has a status in 200..299, \<^verbatim>\<open>ccFetchJson\<close> returns that exact status,
  and as data the parsed body; the data are the empty object when the body is empty,
  when it does not parse, and also when it parses to \<^verbatim>\<open>null\<close>. The call does not fail and
  sends nothing but the first attempt. The same holds of the response to the retry that
  follows a refresh. The requests go to \<open>url\<close>, the address that the base URL and the
  options of the call give.
\<close>

theorem success_pass_through:
  assumes "requireEnv h ''CC_BASE_URL'' = Inr baseUrl"
      and "ccUrl h baseUrl opts = Inr url"
      and "getAccessToken h w = (Inr token, w1)"
      and "network h (sent w1) (ccRequest url token opts) = Inr res"
  shows "(res_ok res \<longrightarrow>
            ccFetchJson h opts w =
              (Inr \<lparr>status = res_status res,
                    data = (if res_text res = [] then JObj []
                            else (case JSON_parse h (res_text res) of
                                    None \<Rightarrow> JObj []
                                  | Some v \<Rightarrow> if nullish v then JObj [] else v))\<rparr>,
               w1\<lparr>sent := sent w @ [ccRequest url token opts]\<rparr>))
         \<and> (\<forall>newToken w3 res2.
               res_status res = 401
               \<and> refreshAccessToken h (w1\<lparr>sent := sent w @ [ccRequest url token opts]\<rparr>)
                   = (Inr newToken, w3)
               \<and> network h (sent w3) (ccRequest url newToken opts) = Inr res2
               \<and> res_ok res2 \<longrightarrow>
               ccFetchJson h opts w =
                 (Inr \<lparr>status = res_status res2,
                       data = (if res_text res2 = [] then JObj []
                               else (case JSON_parse h (res_text res2) of
                                       None \<Rightarrow> JObj []
                                     | Some v \<Rightarrow> if nullish v then JObj [] else v))\<rparr>,
                  w3\<lparr>sent := sent w3 @ [ccRequest url newToken opts]\<rparr>))"
proof (intro conjI allI impI)
  assume ok: "res_ok res"
  have s: "sent w1 = sent w" using getAccessToken_keeps [OF assms(3)] by simp
  show "ccFetchJson h opts w =
              (Inr \<lparr>status = res_status res,
                    data = (if res_text res = [] then JObj []
                            else (case JSON_parse h (res_text res) of
                                    None \<Rightarrow> JObj []
                                  | Some v \<Rightarrow> if nullish v then JObj [] else v))\<rparr>,
               w1\<lparr>sent := sent w @ [ccRequest url token opts]\<rparr>)"
    using ccFetchJson_first [OF assms(1,2,3,4)] ccResult_ok [OF ok, of h] s by simp
next
  fix newToken w3 res2
  assume a: "res_status res = 401
               \<and> refreshAccessToken h (w1\<lparr>sent := sent w @ [ccRequest url token opts]\<rparr>)
                   = (Inr newToken, w3)
               \<and> network h (sent w3) (ccRequest url newToken opts) = Inr res2
               \<and> res_ok res2"
  then have a1: "res_status res = 401"
    and a2: "refreshAccessToken h (w1\<lparr>sent := sent w @ [ccRequest url token opts]\<rparr>)
                   = (Inr newToken, w3)"
    and a3: "network h (sent w3) (ccRequest url newToken opts) = Inr res2"
    and a4: "res_ok res2" by blast+
  show "ccFetchJson h opts w =
                 (Inr \<lparr>status = res_status res2,
                       data = (if res_text res2 = [] then JObj []
                               else (case JSON_parse h (res_text res2) of
                                       None \<Rightarrow> JObj []
                                     | Some v \<Rightarrow> if nullish v then JObj [] else v))\<rparr>,
                  w3\<lparr>sent := sent w3 @ [ccRequest url newToken opts]\<rparr>)"
    using ccFetchJson_unauthorized [OF assms(1,2,3,4) a1 a2] a3 ccResult_ok [OF a4, of h]
    by (simp add: attempt_result_def)
qed

theorem success_pass_through_witness:
  "res_ok contacts_ok \<and> res_status unauthorized = 401
   \<and> ccFetchJson (demo_host demo_vars token_T2 contacts_ok contacts_ok) list_contacts
         (initial_world (demo_host demo_vars token_T2 contacts_ok contacts_ok))
       = (Inr \<lparr>status = 200, data = JObj [(''contacts'', JArr [])]\<rparr>,
          (initial_world (demo_host demo_vars token_T2 contacts_ok contacts_ok))
             \<lparr>sent := [ccRequest ''https://api.cc.email/v3/contacts?limit=10'' (JStr ''T1'') list_contacts]\<rparr>)
   \<and> ccFetchJson burst_host list_contacts (initial_world burst_host)
       = (Inr \<lparr>status = 200, data = JObj [(''contacts'', JArr [])]\<rparr>,
          (initial_world burst_host)
             \<lparr>accessTokenCache := JStr ''T2'',
              sent := [ccRequest ''https://api.cc.email/v3/contacts?limit=10'' (JStr ''T1'') list_contacts,
                       tokenRequest ''client-1'' ''R1'',
                       ccRequest ''https://api.cc.email/v3/contacts?limit=10'' (JStr ''T2'') list_contacts]\<rparr>)"
proof -
  let ?url = "''https://api.cc.email/v3''"
  let ?addr = "''https://api.cc.email/v3/contacts?limit=10''"
  let ?req1 = "ccRequest ?addr (JStr ''T1'') list_contacts"
  let ?req2 = "ccRequest ?addr (JStr ''T2'') list_contacts"
  have u: "ccUrl (demo_host vars token first later) ?url list_contacts = Inr ?addr"
    for vars token first later
    by (simp add: client_defs demo_defs)
  have ok: "res_ok contacts_ok" by (simp add: res_ok_def contacts_ok_def)
  have un: "res_status unauthorized = 401" by (simp add: unauthorized_def)
  have t: "res_text contacts_ok \<noteq> []" "res_status contacts_ok = 200"
    by (simp_all add: contacts_ok_def)
  have first: "ccFetchJson (demo_host demo_vars token_T2 contacts_ok contacts_ok) list_contacts
         (initial_world (demo_host demo_vars token_T2 contacts_ok contacts_ok))
       = (Inr \<lparr>status = 200, data = JObj [(''contacts'', JArr [])]\<rparr>,
          (initial_world (demo_host demo_vars token_T2 contacts_ok contacts_ok))
             \<lparr>sent := [?req1]\<rparr>)"
  proof -
    let ?h = "demo_host demo_vars token_T2 contacts_ok contacts_ok"
    have h1: "requireEnv ?h ''CC_BASE_URL'' = Inr ?url"
      by (simp add: requireEnv_def demo_host_def demo_vars_def)
    have h2: "getAccessToken ?h (initial_world ?h) = (Inr (JStr ''T1''), initial_world ?h)"
      by (simp add: getAccessToken_def initial_world_def env_or_null_def demo_host_def demo_vars_def)
    have h3: "network ?h (sent (initial_world ?h)) ?req1 = Inr contacts_ok"
      by (simp add: client_defs demo_defs)
    have p: "JSON_parse ?h (res_text contacts_ok) = Some (JObj [(''contacts'', JArr [])])"
      by (simp add: demo_host_def demo_json_def contacts_ok_def)
    have s0: "sent (initial_world ?h) = []" by (simp add: initial_world_def)
    from success_pass_through [OF h1 u h2 h3] ok p t s0 show ?thesis by simp
  qed
  have retried: "ccFetchJson burst_host list_contacts (initial_world burst_host)
       = (Inr \<lparr>status = 200, data = JObj [(''contacts'', JArr [])]\<rparr>,
          (initial_world burst_host)
             \<lparr>accessTokenCache := JStr ''T2'',
              sent := [?req1, tokenRequest ''client-1'' ''R1'', ?req2]\<rparr>)"
  proof -
    let ?h = burst_host
    let ?w3 = "(initial_world ?h)\<lparr>accessTokenCache := JStr ''T2'',
                                   sent := [?req1, tokenRequest ''client-1'' ''R1'']\<rparr>"
    have h1: "requireEnv ?h ''CC_BASE_URL'' = Inr ?url"
      by (simp add: requireEnv_def burst_host_def demo_host_def demo_vars_def)
    have h2: "getAccessToken ?h (initial_world ?h) = (Inr (JStr ''T1''), initial_world ?h)"
      by (simp add: getAccessToken_def initial_world_def env_or_null_def burst_host_def
            demo_host_def demo_vars_def)
    have h3: "network ?h (sent (initial_world ?h)) ?req1 = Inr unauthorized"
      by (simp add: burst_host_def client_defs demo_defs)
    have s0: "sent (initial_world ?h) = []" by (simp add: initial_world_def)
    have r: "refreshAccessToken ?h ((initial_world ?h)\<lparr>sent := sent (initial_world ?h) @ [?req1]\<rparr>)
               = (Inr (JStr ''T2''), ?w3)"
      by (simp add: burst_host_def client_defs demo_defs Let_def)
    have n: "network ?h (sent ?w3) ?req2 = Inr contacts_ok"
      by (simp add: burst_host_def client_defs demo_defs)
    have p: "JSON_parse ?h (res_text contacts_ok) = Some (JObj [(''contacts'', JArr [])])"
      by (simp add: burst_host_def demo_host_def demo_json_def contacts_ok_def)
    have hyp: "res_status unauthorized = 401
               \<and> refreshAccessToken ?h ((initial_world ?h)\<lparr>sent := sent (initial_world ?h) @ [?req1]\<rparr>)
                   = (Inr (JStr ''T2''), ?w3)
               \<and> network ?h (sent ?w3) ?req2 = Inr contacts_ok
               \<and> res_ok contacts_ok"
      using un r n ok by simp
    have hu: "ccUrl ?h ?url list_contacts = Inr ?addr" unfolding burst_host_def by (rule u)
    from success_pass_through [OF h1 hu h2 h3]
    have "\<forall>newToken w3 res2.
               res_status unauthorized = 401
               \<and> refreshAccessToken ?h ((initial_world ?h)\<lparr>sent := sent (initial_world ?h) @ [?req1]\<rparr>)
                   = (Inr newToken, w3)
               \<and> network ?h (sent w3) (ccRequest ?addr newToken list_contacts) = Inr res2
               \<and> res_ok res2 \<longrightarrow>
               ccFetchJson ?h list_contacts (initial_world ?h) =
                 (Inr \<lparr>status = res_status res2,
                       data = (if res_text res2 = [] then JObj []
                               else (case JSON_parse ?h (res_text res2) of
                                       None \<Rightarrow> JObj []
                                     | Some v \<Rightarrow> if nullish v then JObj [] else v))\<rparr>,
                  w3\<lparr>sent := sent w3 @ [ccRequest ?addr newToken list_contacts]\<rparr>)"
      by (rule conjunct2)
    from this [rule_format, OF hyp] p t show ?thesis by simp
  qed
  from ok un first retried show ?thesis by (intro conjI)
qed

text \<open>
  The claim as stated gives the parsed body for every body that parses. The body
  \<^verbatim>\<open>null\<close> is not empty and parses, to \<^verbatim>\<open>null\<close>; the data returned are the empty object
  (\<^verbatim>\<open>data ?? {}\<close>, line 88).
\<close>

theorem null_body_counterexample:
  "res_ok null_body
   \<and> res_text null_body = ''null''
   \<and> JSON_parse (demo_host demo_vars token_T2 null_body null_body) ''null'' = Some JNull
   \<and> fst (ccFetchJson (demo_host demo_vars token_T2 null_body null_body) list_contacts
            (initial_world (demo_host demo_vars token_T2 null_body null_body)))
       = Inr \<lparr>status = 200, data = JObj []\<rparr>"
  by (simp add: client_defs demo_defs)

section \<open>Errors of the contact service\<close>

text \<open>
  C3. Non-auth errors are terminal. When the first response of an execute call has a
  status outside 200..299 other than 401, \<^verbatim>\<open>ccFetchJson\<close> throws an error whose status is
  exactly the upstream status and whose details are the parsed body, or the raw text
  where the body is empty, does not parse, or parses to \<^verbatim>\<open>null\<close>. The only request handed
  to \<^verbatim>\<open>fetch\<close> is that first attempt, to the address \<open>url\<close> that the base URL and the options
  give: nothing goes to the token endpoint, and the cached token and the refresh slot stay
  as the token lookup left them.
\<close>

theorem non_auth_error_is_terminal:
  assumes "requireEnv h ''CC_BASE_URL'' = Inr baseUrl"
      and "ccUrl h baseUrl opts = Inr url"
      and "getAccessToken h w = (Inr token, w1)"
      and "network h (sent w1) (ccRequest url token opts) = Inr res"
      and "\<not> res_ok res"
      and "res_status res \<noteq> 401"
  shows "\<exists>e. ccFetchJson h opts w = (Inl e, w1\<lparr>sent := sent w @ [ccRequest url token opts]\<rparr>)
           \<and> err_status e = Some (res_status res)
           \<and> err_details e =
               (if res_text res = [] then JStr []
                else (case JSON_parse h (res_text res) of
                        None \<Rightarrow> JStr (res_text res)
                      | Some v \<Rightarrow> if nullish v then JStr (res_text res) else v))"
proof -
  from ccResult_not_ok [OF assms(5), of h] obtain e where
    e: "ccResult h res = Inl e" "err_status e = Some (res_status res)"
       "err_details e =
               (if res_text res = [] then JStr []
                else (case JSON_parse h (res_text res) of
                        None \<Rightarrow> JStr (res_text res)
                      | Some v \<Rightarrow> if nullish v then JStr (res_text res) else v))"
    by blast
  have s: "sent w1 = sent w" using getAccessToken_keeps [OF assms(3)] by simp
  have "ccFetchJson h opts w = (Inl e, w1\<lparr>sent := sent w @ [ccRequest url token opts]\<rparr>)"
    using ccFetchJson_first [OF assms(1,2,3,4)] e(1,2) assms(6) s by simp
  with e(2,3) show ?thesis by blast
qed

theorem non_auth_error_is_terminal_witness:
  "requireEnv (demo_host demo_vars token_T2 not_found contacts_ok) ''CC_BASE_URL''
     = Inr ''https://api.cc.email/v3''
   \<and> ccUrl (demo_host demo_vars token_T2 not_found contacts_ok) ''https://api.cc.email/v3''
         list_contacts
       = Inr ''https://api.cc.email/v3/contacts?limit=10''
   \<and> \<not> res_ok not_found \<and> res_status not_found \<noteq> 401
   \<and> (\<exists>e. ccFetchJson (demo_host demo_vars token_T2 not_found contacts_ok) list_contacts
              (initial_world (demo_host demo_vars token_T2 not_found contacts_ok))
            = (Inl e, (initial_world (demo_host demo_vars token_T2 not_found contacts_ok))
                 \<lparr>sent := [ccRequest ''https://api.cc.email/v3/contacts?limit=10'' (JStr ''T1'') list_contacts]\<rparr>)
          \<and> err_status e = Some 404
          \<and> err_details e = JObj [(''message'', JStr ''Not found'')])"
proof -
  let ?h = "demo_host demo_vars token_T2 not_found contacts_ok"
  have h1: "requireEnv ?h ''CC_BASE_URL'' = Inr ''https://api.cc.email/v3''"
    by (simp add: requireEnv_def demo_host_def demo_vars_def)
  have hu: "ccUrl ?h ''https://api.cc.email/v3'' list_contacts
              = Inr ''https://api.cc.email/v3/contacts?limit=10''"
    by (simp add: client_defs demo_defs)
  have h2: "getAccessToken ?h (initial_world ?h) = (Inr (JStr ''T1''), initial_world ?h)"
    by (simp add: getAccessToken_def initial_world_def env_or_null_def demo_host_def demo_vars_def)
  have h3: "network ?h (sent (initial_world ?h))
              (ccRequest ''https://api.cc.email/v3/contacts?limit=10'' (JStr ''T1'') list_contacts)
              = Inr not_found"
    by (simp add: client_defs demo_defs)
  have h4: "\<not> res_ok not_found" by (simp add: res_ok_def not_found_def)
  have h5: "res_status not_found \<noteq> 401" by (simp add: not_found_def)
  have p: "JSON_parse ?h (res_text not_found) = Some (JObj [(''message'', JStr ''Not found'')])"
    by (simp add: demo_host_def demo_json_def not_found_def)
  have t: "res_text not_found \<noteq> []" "res_status not_found = 404" by (simp_all add: not_found_def)
  have s0: "sent (initial_world ?h) = []" by (simp add: initial_world_def)
  show ?thesis
    using non_auth_error_is_terminal [OF h1 hu h2 h3 h4 h5] h1 hu h4 h5 p t s0 by simp
qed

section \<open>The retry\<close>

text \<open>
  C2. Single retry, no loop. When the first response of an execute call has status 401,
  \<^verbatim>\<open>ccFetchJson\<close> calls \<^verbatim>\<open>refreshAccessToken\<close> once, in the state left by the first attempt;
  that call hands at most one request to \<^verbatim>\<open>fetch\<close>, a request to the token endpoint. If
  the refresh throws, \<^verbatim>\<open>ccFetchJson\<close> throws its error. If it returns a token, the
  request is sent once more with that token and \<^verbatim>\<open>ccFetchJson\<close> ends with the outcome of
  that retry, whatever it is: a retry answered with a status outside 200..299, 401
  included, throws the error carrying that status, and nothing is sent after the retry.
  The first attempt and the retry go to the same address \<open>url\<close>, the one that the base URL
  and the options give.
\<close>

theorem single_retry:
  assumes "requireEnv h ''CC_BASE_URL'' = Inr baseUrl"
      and "ccUrl h baseUrl opts = Inr url"
      and "getAccessToken h w = (Inr token, w1)"
      and "network h (sent w1) (ccRequest url token opts) = Inr res"
      and "res_status res = 401"
      and "refreshAccessToken h (w1\<lparr>sent := sent w @ [ccRequest url token opts]\<rparr>) = (r, w3)"
  shows "(\<exists>toks. sent w3 = sent w @ [ccRequest url token opts] @ toks \<and> length toks \<le> 1
             \<and> (\<forall>t \<in> set toks. \<exists>c rt. t = tokenRequest c rt))
         \<and> (\<forall>e. r = Inl e \<longrightarrow> ccFetchJson h opts w = (Inl e, w3))
         \<and> (\<forall>newToken. r = Inr newToken \<longrightarrow>
               ccFetchJson h opts w
                 = (attempt_result h (network h (sent w3) (ccRequest url newToken opts)),
                    w3\<lparr>sent := sent w3 @ [ccRequest url newToken opts]\<rparr>))
         \<and> (\<forall>newToken res2. r = Inr newToken
               \<and> network h (sent w3) (ccRequest url newToken opts) = Inr res2 \<and> \<not> res_ok res2 \<longrightarrow>
               (\<exists>e. ccFetchJson h opts w
                       = (Inl e, w3\<lparr>sent := sent w3 @ [ccRequest url newToken opts]\<rparr>)
                    \<and> err_status e = Some (res_status res2)))"
proof -
  let ?w2 = "w1\<lparr>sent := sent w @ [ccRequest url token opts]\<rparr>"
  have s: "sent w1 = sent w" using getAccessToken_keeps [OF assms(3)] by simp
  have nok: "\<not> res_ok res" using assms(5) by (simp add: res_ok_def)
  from ccResult_not_ok [OF nok, of h] assms(5) obtain e1 where
    e1: "ccResult h res = Inl e1" "err_status e1 = Some 401" by auto
  have cc: "ccFetchJson h opts w =
              (case r of Inl e \<Rightarrow> (Inl e, w3)
               | Inr newToken \<Rightarrow> ccFetchJsonWithToken h baseUrl newToken opts w3)"
    using ccFetchJson_first [OF assms(1,2,3,4)] e1 s assms(6) by simp
  have a: "\<exists>toks. sent w3 = sent w @ [ccRequest url token opts] @ toks \<and> length toks \<le> 1
             \<and> (\<forall>t \<in> set toks. \<exists>c rt. t = tokenRequest c rt)"
    using refreshAccessToken_sent [of h ?w2] assms(6) by simp
  have b: "ccFetchJson h opts w = (Inl e, w3)" if "r = Inl e" for e
    using cc that by simp
  have c: "ccFetchJson h opts w
             = (attempt_result h (network h (sent w3) (ccRequest url newToken opts)),
                w3\<lparr>sent := sent w3 @ [ccRequest url newToken opts]\<rparr>)"
    if "r = Inr newToken" for newToken
    using cc that by (simp add: ccFetchJsonWithToken_eq [OF assms(2)])
  have d: "\<exists>e. ccFetchJson h opts w
                  = (Inl e, w3\<lparr>sent := sent w3 @ [ccRequest url newToken opts]\<rparr>)
               \<and> err_status e = Some (res_status res2)"
    if "r = Inr newToken" "network h (sent w3) (ccRequest url newToken opts) = Inr res2"
       "\<not> res_ok res2" for newToken res2
    using c [OF that(1)] that(2) attempt_result_not_ok [OF that(3), of h] by auto
  show ?thesis using a b c d by blast
qed

theorem single_retry_witness:
  "res_status unauthorized = 401
   \<and> refreshAccessToken (demo_host demo_vars token_T2 unauthorized unauthorized)
        ((initial_world (demo_host demo_vars token_T2 unauthorized unauthorized))
           \<lparr>sent := [ccRequest ''https://api.cc.email/v3/contacts?limit=10'' (JStr ''T1'') list_contacts]\<rparr>)
      = (Inr (JStr ''T2''),
         (initial_world (demo_host demo_vars token_T2 unauthorized unauthorized))
           \<lparr>accessTokenCache := JStr ''T2'',
            sent := [ccRequest ''https://api.cc.email/v3/contacts?limit=10'' (JStr ''T1'') list_contacts,
                     tokenRequest ''client-1'' ''R1'']\<rparr>)
   \<and> (\<exists>e. ccFetchJson (demo_host demo_vars token_T2 unauthorized unauthorized) list_contacts
              (initial_world (demo_host demo_vars token_T2 unauthorized unauthorized))
            = (Inl e,
               (initial_world (demo_host demo_vars token_T2 unauthorized unauthorized))
                 \<lparr>accessTokenCache := JStr ''T2'',
                  sent := [ccRequest ''https://api.cc.email/v3/contacts?limit=10'' (JStr ''T1'') list_contacts,
                           tokenRequest ''client-1'' ''R1'',
                           ccRequest ''https://api.cc.email/v3/contacts?limit=10'' (JStr ''T2'') list_contacts]\<rparr>)
          \<and> err_status e = Some 401)"
proof -
  let ?h = "demo_host demo_vars token_T2 unauthorized unauthorized"
  let ?req1 = "ccRequest ''https://api.cc.email/v3/contacts?limit=10'' (JStr ''T1'') list_contacts"
  let ?req2 = "ccRequest ''https://api.cc.email/v3/contacts?limit=10'' (JStr ''T2'') list_contacts"
  let ?w3 = "(initial_world ?h)\<lparr>accessTokenCache := JStr ''T2'',
                                 sent := [?req1, tokenRequest ''client-1'' ''R1'']\<rparr>"
  have h1: "requireEnv ?h ''CC_BASE_URL'' = Inr ''https://api.cc.email/v3''"
    by (simp add: requireEnv_def demo_host_def demo_vars_def)
  have hu: "ccUrl ?h ''https://api.cc.email/v3'' list_contacts
              = Inr ''https://api.cc.email/v3/contacts?limit=10''"
    by (simp add: client_defs demo_defs)
  have h2: "getAccessToken ?h (initial_world ?h) = (Inr (JStr ''T1''), initial_world ?h)"
    by (simp add: getAccessToken_def initial_world_def env_or_null_def demo_host_def demo_vars_def)
  have h3: "network ?h (sent (initial_world ?h)) ?req1 = Inr unauthorized"
    by (simp add: client_defs demo_defs)
  have h4: "res_status unauthorized = 401" by (simp add: unauthorized_def)
  have s0: "sent (initial_world ?h) = []" by (simp add: initial_world_def)
  have h5: "refreshAccessToken ?h ((initial_world ?h)\<lparr>sent := sent (initial_world ?h) @ [?req1]\<rparr>)
              = (Inr (JStr ''T2''), ?w3)"
    by (simp add: client_defs demo_defs Let_def)
  have n: "network ?h (sent ?w3) ?req2 = Inr unauthorized"
    by (simp add: client_defs demo_defs)
  have k: "\<not> res_ok unauthorized" by (simp add: res_ok_def unauthorized_def)
  note th = single_retry [OF h1 hu h2 h3 h4 h5]
  have "\<exists>e. ccFetchJson ?h list_contacts (initial_world ?h)
               = (Inl e, ?w3\<lparr>sent := sent ?w3 @ [?req2]\<rparr>)
            \<and> err_status e = Some (res_status unauthorized)"
    using th n k by blast
  then show ?thesis using h4 h5 s0 by simp
qed

section \<open>The refresh operation\<close>

text \<open>
  C5. Refresh failure atomicity. When a refresh call performs the exchange and the token
  endpoint answers with a status outside 200..299, the cached access token after the
  call is the one before it, and the error thrown carries the upstream status and, as
  details, the parsed body or the raw text.
\<close>

theorem refresh_failure_keeps_token:
  assumes "refreshInFlight w = None"
      and "requireEnv h ''CC_CLIENT_ID'' = Inr clientId"
      and "requireEnv h ''CC_REFRESH_TOKEN'' = Inr refreshToken"
      and "network h (sent w) (tokenRequest clientId refreshToken) = Inr res"
      and "\<not> res_ok res"
  shows "\<exists>e. refreshAccessToken h w
                = (Inl e, w\<lparr>sent := sent w @ [tokenRequest clientId refreshToken]\<rparr>)
           \<and> accessTokenCache (snd (refreshAccessToken h w)) = accessTokenCache w
           \<and> err_status e = Some (res_status res)
           \<and> err_details e =
               (if res_text res = [] then JStr []
                else (case JSON_parse h (res_text res) of
                        None \<Rightarrow> JStr (res_text res)
                      | Some v \<Rightarrow> if nullish v then JStr (res_text res) else v))"
proof -
  from tokenResult_not_ok [OF assms(5), of h] obtain e where
    e: "tokenResult h res = Inl e" "err_status e = Some (res_status res)"
       "err_details e =
               (if res_text res = [] then JStr []
                else (case JSON_parse h (res_text res) of
                        None \<Rightarrow> JStr (res_text res)
                      | Some v \<Rightarrow> if nullish v then JStr (res_text res) else v))"
    by blast
  have r: "refreshAccessToken h w
             = (Inl e, w\<lparr>sent := sent w @ [tokenRequest clientId refreshToken]\<rparr>)"
    using refreshAccessToken_exchange [OF assms(1,2,3,4)] e(1) by simp
  then have "accessTokenCache (snd (refreshAccessToken h w)) = accessTokenCache w" by simp
  with r e(2,3) show ?thesis by blast
qed

theorem refresh_failure_keeps_token_witness:
  "refreshInFlight (initial_world (demo_host demo_vars invalid_grant unauthorized contacts_ok)) = None
   \<and> \<not> res_ok invalid_grant
   \<and> (\<exists>e. refreshAccessToken (demo_host demo_vars invalid_grant unauthorized contacts_ok)
              (initial_world (demo_host demo_vars invalid_grant unauthorized contacts_ok))
            = (Inl e, (initial_world (demo_host demo_vars invalid_grant unauthorized contacts_ok))
                        \<lparr>sent := [tokenRequest ''client-1'' ''R1'']\<rparr>)
          \<and> accessTokenCache
                (snd (refreshAccessToken (demo_host demo_vars invalid_grant unauthorized contacts_ok)
                        (initial_world (demo_host demo_vars invalid_grant unauthorized contacts_ok))))
              = JStr ''T1''
          \<and> err_status e = Some 400
          \<and> err_details e = JObj [(''error'', JStr ''invalid_grant'')])"
proof -
  let ?h = "demo_host demo_vars invalid_grant unauthorized contacts_ok"
  have h1: "refreshInFlight (initial_world ?h) = None" by (simp add: initial_world_def)
  have h2: "requireEnv ?h ''CC_CLIENT_ID'' = Inr ''client-1''"
    by (simp add: requireEnv_def demo_host_def demo_vars_def)
  have h3: "requireEnv ?h ''CC_REFRESH_TOKEN'' = Inr ''R1''"
    by (simp add: requireEnv_def demo_host_def demo_vars_def)
  have h4: "network ?h (sent (initial_world ?h)) (tokenRequest ''client-1'' ''R1'') = Inr invalid_grant"
    by (simp add: demo_host_def tokenRequest_def)
  have h5: "\<not> res_ok invalid_grant" by (simp add: res_ok_def invalid_grant_def)
  have p: "JSON_parse ?h (res_text invalid_grant) = Some (JObj [(''error'', JStr ''invalid_grant'')])"
    by (simp add: demo_host_def demo_json_def invalid_grant_def)
  have t: "res_text invalid_grant \<noteq> []" "res_status invalid_grant = 400"
    by (simp_all add: invalid_grant_def)
  have s0: "sent (initial_world ?h) = []"
           "accessTokenCache (initial_world ?h) = JStr ''T1''"
    by (simp_all add: initial_world_def env_or_null_def demo_host_def demo_vars_def)
  show ?thesis
    using refresh_failure_keeps_token [OF h1 h2 h3 h4 h5] h1 h5 p t s0 by simp
qed

text \<open>
  C7, as amended. Successful refresh adopts the new token. When the token endpoint
  answers with a status in 200..299 and a body that parses to an object whose
  \<^verbatim>\<open>access_token\<close> is truthy (for a string: not empty), the refresh call returns that
  token and stores it in the cache; the next \<^verbatim>\<open>getAccessToken\<close> returns it, and the
  next \<^verbatim>\<open>ccFetchJson\<close> whose base URL and options give an address sends its first request
  with it.
\<close>

theorem refresh_success_adopts_token:
  assumes "refreshInFlight w = None"
      and "requireEnv h ''CC_CLIENT_ID'' = Inr clientId"
      and "requireEnv h ''CC_REFRESH_TOKEN'' = Inr refreshToken"
      and "network h (sent w) (tokenRequest clientId refreshToken) = Inr res"
      and "res_ok res"
      and "res_text res \<noteq> []"
      and "JSON_parse h (res_text res) = Some (JObj kvs)"
      and "map_of kvs ''access_token'' = Some tok"
      and "truthy tok"
  shows "refreshAccessToken h w
           = (Inr tok, w\<lparr>accessTokenCache := tok,
                          sent := sent w @ [tokenRequest clientId refreshToken]\<rparr>)
         \<and> getAccessToken h (snd (refreshAccessToken h w)) = (Inr tok, snd (refreshAccessToken h w))
         \<and> (\<forall>baseUrl opts url.
               requireEnv h ''CC_BASE_URL'' = Inr baseUrl \<and> ccUrl h baseUrl opts = Inr url \<longrightarrow>
               (\<exists>reqs. sent (snd (ccFetchJson h opts (snd (refreshAccessToken h w))))
                        = sent (snd (refreshAccessToken h w)) @ ccRequest url tok opts # reqs))"
proof -
  let ?w' = "w\<lparr>accessTokenCache := tok, sent := sent w @ [tokenRequest clientId refreshToken]\<rparr>"
  have t: "tokenResult h res = Inr tok"
    using tokenResult_ok [OF assms(5,6,7,8)] assms(9) by simp
  have r: "refreshAccessToken h w = (Inr tok, ?w')"
    using refreshAccessToken_exchange [OF assms(1,2,3,4)] t by simp
  have c: "accessTokenCache ?w' = tok" by simp
  have g: "getAccessToken h ?w' = (Inr tok, ?w')"
    using assms(9) by (simp add: getAccessToken_def)
  have n: "\<exists>reqs. sent (snd (ccFetchJson h opts ?w')) = sent ?w' @ ccRequest url tok opts # reqs"
    if "requireEnv h ''CC_BASE_URL'' = Inr baseUrl" "ccUrl h baseUrl opts = Inr url"
    for baseUrl opts url
    using ccFetchJson_sends_with_cached_token [OF that, of ?w'] assms(9) by simp
  show ?thesis using r g n by simp
qed

theorem refresh_success_adopts_token_witness:
  "refreshInFlight (initial_world (demo_host demo_vars token_T2 unauthorized contacts_ok)) = None
   \<and> res_ok token_T2
   \<and> JSON_parse (demo_host demo_vars token_T2 unauthorized contacts_ok) (res_text token_T2)
       = Some (JObj [(''access_token'', JStr ''T2'')])
   \<and> truthy (JStr ''T2'')
   \<and> refreshAccessToken (demo_host demo_vars token_T2 unauthorized contacts_ok)
         (initial_world (demo_host demo_vars token_T2 unauthorized contacts_ok))
       = (Inr (JStr ''T2''),
          (initial_world (demo_host demo_vars token_T2 unauthorized contacts_ok))
             \<lparr>accessTokenCache := JStr ''T2'', sent := [tokenRequest ''client-1'' ''R1'']\<rparr>)
   \<and> getAccessToken (demo_host demo_vars token_T2 unauthorized contacts_ok)
         (snd (refreshAccessToken (demo_host demo_vars token_T2 unauthorized contacts_ok)
                 (initial_world (demo_host demo_vars token_T2 unauthorized contacts_ok))))
       = (Inr (JStr ''T2''),
          snd (refreshAccessToken (demo_host demo_vars token_T2 unauthorized contacts_ok)
                 (initial_world (demo_host demo_vars token_T2 unauthorized contacts_ok))))
   \<and> (\<exists>reqs. sent (snd (ccFetchJson (demo_host demo_vars token_T2 unauthorized contacts_ok) list_contacts
                 (snd (refreshAccessToken (demo_host demo_vars token_T2 unauthorized contacts_ok)
                         (initial_world (demo_host demo_vars token_T2 unauthorized contacts_ok))))))
         = tokenRequest ''client-1'' ''R1''
           # ccRequest ''https://api.cc.email/v3/contacts?limit=10'' (JStr ''T2'') list_contacts # reqs)"
proof -
  let ?h = "demo_host demo_vars token_T2 unauthorized contacts_ok"
  have h1: "refreshInFlight (initial_world ?h) = None" by (simp add: initial_world_def)
  have h2: "requireEnv ?h ''CC_CLIENT_ID'' = Inr ''client-1''"
    by (simp add: requireEnv_def demo_host_def demo_vars_def)
  have h3: "requireEnv ?h ''CC_REFRESH_TOKEN'' = Inr ''R1''"
    by (simp add: requireEnv_def demo_host_def demo_vars_def)
  have h4: "network ?h (sent (initial_world ?h)) (tokenRequest ''client-1'' ''R1'') = Inr token_T2"
    by (simp add: demo_host_def tokenRequest_def)
  have h5: "res_ok token_T2" by (simp add: res_ok_def token_T2_def)
  have h6: "res_text token_T2 \<noteq> []" by (simp add: token_T2_def)
  have h7: "JSON_parse ?h (res_text token_T2) = Some (JObj [(''access_token'', JStr ''T2'')])"
    by (simp add: demo_host_def demo_json_def token_T2_def)
  have h8: "map_of [(''access_token'', JStr ''T2'')] ''access_token'' = Some (JStr ''T2'')" by simp
  have h9: "truthy (JStr ''T2'')" by simp
  have b: "requireEnv ?h ''CC_BASE_URL'' = Inr ''https://api.cc.email/v3''
           \<and> ccUrl ?h ''https://api.cc.email/v3'' list_contacts
               = Inr ''https://api.cc.email/v3/contacts?limit=10''"
    by (simp add: client_defs demo_defs)
  have s0: "sent (initial_world ?h) = []" by (simp add: initial_world_def)
  note th = refresh_success_adopts_token [OF h1 h2 h3 h4 h5 h6 h7 h8 h9]
  have r: "refreshAccessToken ?h (initial_world ?h)
             = (Inr (JStr ''T2''),
                (initial_world ?h)\<lparr>accessTokenCache := JStr ''T2'',
                                      sent := [tokenRequest ''client-1'' ''R1'']\<rparr>)"
    using th s0 by simp
  have g: "getAccessToken ?h (snd (refreshAccessToken ?h (initial_world ?h)))
             = (Inr (JStr ''T2''), snd (refreshAccessToken ?h (initial_world ?h)))"
    using th by blast
  have "\<exists>reqs. sent (snd (ccFetchJson ?h list_contacts (snd (refreshAccessToken ?h (initial_world ?h)))))
                 = sent (snd (refreshAccessToken ?h (initial_world ?h)))
                   @ ccRequest ''https://api.cc.email/v3/contacts?limit=10'' (JStr ''T2'') list_contacts # reqs"
    using th b by blast
  then have n: "\<exists>reqs. sent (snd (ccFetchJson ?h list_contacts (snd (refreshAccessToken ?h (initial_world ?h)))))
                 = tokenRequest ''client-1'' ''R1''
                   # ccRequest ''https://api.cc.email/v3/contacts?limit=10'' (JStr ''T2'') list_contacts # reqs"
    by (simp add: r)
  show ?thesis using h1 h5 h7 h9 r g n by blast
qed

text \<open>
  The claim as stated asks only for an \<^verbatim>\<open>access_token\<close> field in the body. With the
  body \<^verbatim>\<open>{"access_token":""}\<close> the field is there, and the guard of line 126 throws: the
  cache keeps the old token.
\<close>

theorem empty_access_token_counterexample:
  "res_ok empty_token
   \<and> JSON_parse (demo_host demo_vars empty_token unauthorized contacts_ok) (res_text empty_token)
       = Some (JObj [(''access_token'', JStr [])])
   \<and> accessTokenCache (initial_world (demo_host demo_vars empty_token unauthorized contacts_ok))
       = JStr ''T1''
   \<and> refreshAccessToken (demo_host demo_vars empty_token unauthorized contacts_ok)
         (initial_world (demo_host demo_vars empty_token unauthorized contacts_ok))
       = (Inl (Error ''Token refresh succeeded but no access_token was returned.''),
          (initial_world (demo_host demo_vars empty_token unauthorized contacts_ok))
             \<lparr>sent := [tokenRequest ''client-1'' ''R1'']\<rparr>)"
  by (simp add: client_defs demo_defs Let_def)

section \<open>One refresh at a time\<close>

subsection \<open>The refresh calls in flight and the creating tasks\<close>

lemma in_flight_iff: "p \<in> set (in_flight s) \<longleftrightarrow> p < length (promises s) \<and> promises s ! p = Pending"
  by (auto simp: in_flight_def)

lemma in_flight_append_Pending:
  "promises s' = promises s @ [Pending] \<Longrightarrow> in_flight s' = in_flight s @ [length (promises s)]"
  by (auto simp: in_flight_def nth_append intro!: filter_cong)

lemma in_flight_append_Rejected:
  "promises s' = promises s @ [Rejected e] \<Longrightarrow> in_flight s' = in_flight s"
  by (auto simp: in_flight_def nth_append intro!: filter_cong)

lemma in_flight_same: "promises s' = promises s \<Longrightarrow> in_flight s' = in_flight s"
  by (simp add: in_flight_def)

lemma in_flight_settle:
  assumes "promises s' = (promises s)[p := x]" "x \<noteq> Pending"
  shows "in_flight s' = filter (\<lambda>q. q \<noteq> p) (in_flight s)"
proof -
  have "(promises s)[p := x] ! q = Pending \<longleftrightarrow> promises s ! q = Pending \<and> q \<noteq> p"
    if "q < length (promises s)" for q
    using that assms(2) by (cases "q = p") auto
  then show ?thesis
    using assms by (auto simp: in_flight_def intro!: filter_cong)
qed

lemma owners_same: "tasks s' = tasks s \<Longrightarrow> owners s' = owners s"
  by (simp add: owners_def)

lemma owners_update:
  assumes "i < length ts"
  shows "concat (map owned (ts[i := t]))
           = concat (map owned (take i ts)) @ owned t @ concat (map owned (drop (Suc i) ts))"
  using assms by (simp add: upd_conv_take_nth_drop)

lemma owners_split:
  assumes "i < length ts"
  shows "concat (map owned ts)
           = concat (map owned (take i ts)) @ owned (ts ! i) @ concat (map owned (drop (Suc i) ts))"
proof -
  have "ts = take i ts @ ts ! i # drop (Suc i) ts" using assms by (simp add: id_take_nth_drop)
  then have "concat (map owned ts) = concat (map owned (take i ts @ ts ! i # drop (Suc i) ts))"
    by simp
  then show ?thesis by simp
qed

lemma owners_update_plain:
  assumes "i < length (tasks s)" "owned (tasks s ! i) = []" "owned t = []"
          "tasks s' = (tasks s)[i := t]"
  shows "owners s' = owners s"
  using owners_update [OF assms(1), of t] owners_split [OF assms(1)] assms(2,3,4)
  by (simp add: owners_def)

lemma owners_update_gain:
  assumes "i < length (tasks s)" "owners s = []" "tasks s' = (tasks s)[i := t]"
  shows "owners s' = owned t"
proof -
  from owners_split [OF assms(1)] assms(2)
  have a: "concat (map owned (take i (tasks s))) = []"
   and b: "concat (map owned (drop (Suc i) (tasks s))) = []"
    by (simp_all add: owners_def)
  show ?thesis unfolding owners_def assms(3) owners_update [OF assms(1)] a b by simp
qed

lemma owners_update_release:
  assumes "i < length (tasks s)" "owners s = [p]" "owned (tasks s ! i) = [p]" "owned t = []"
          "tasks s' = (tasks s)[i := t]"
  shows "owners s' = []"
proof -
  from owners_split [OF assms(1)] assms(2,3)
  have "[p] = concat (map owned (take i (tasks s))) @ [p] @ concat (map owned (drop (Suc i) (tasks s)))"
    by (simp add: owners_def)
  then have a: "concat (map owned (take i (tasks s))) = []"
        and b: "concat (map owned (drop (Suc i) (tasks s))) = []"
    by (simp_all add: append_eq_Cons_conv Cons_eq_append_conv)
  show ?thesis unfolding owners_def assms(5) owners_update [OF assms(1)] a b assms(4) by simp
qed

subsection \<open>Every step keeps the invariant\<close>

lemma refresh_call_join:
  "refreshInFlight s = Some p \<Longrightarrow>
   refresh_call h baseUrl opts i s = s\<lparr>tasks := (tasks s)[i := AwaitRefreshJoined baseUrl opts p]\<rparr>"
  by (simp add: refresh_call_def)

lemma refresh_call_fresh:
  assumes "refreshInFlight s = None"
  shows "refreshInFlight (refresh_call h baseUrl opts i s) = Some (length (promises s))"
    and "tasks (refresh_call h baseUrl opts i s)
           = (tasks s)[i := AwaitRefreshOwner baseUrl opts (length (promises s))]"
    and "accessTokenCache (refresh_call h baseUrl opts i s) = accessTokenCache s"
    and "(\<exists>c r. requireEnv h ''CC_CLIENT_ID'' = Inr c \<and> requireEnv h ''CC_REFRESH_TOKEN'' = Inr r
            \<and> promises (refresh_call h baseUrl opts i s) = promises s @ [Pending]
            \<and> sent (refresh_call h baseUrl opts i s) = sent s @ [tokenRequest c r])
         \<or> (\<exists>e. promises (refresh_call h baseUrl opts i s) = promises s @ [Rejected e]
            \<and> sent (refresh_call h baseUrl opts i s) = sent s)"
  using assms by (auto simp: refresh_call_def Let_def split: sum.splits)

lemma refresh_call_configured:
  assumes "refreshInFlight s = None"
      and "requireEnv h ''CC_CLIENT_ID'' = Inr clientId"
      and "requireEnv h ''CC_REFRESH_TOKEN'' = Inr refreshToken"
  shows "refresh_call h baseUrl opts i s
           = s\<lparr>refreshInFlight := Some (length (promises s)),
               sent := sent s @ [tokenRequest clientId refreshToken],
               promises := promises s @ [Pending],
               tasks := (tasks s)[i := AwaitRefreshOwner baseUrl opts (length (promises s))]\<rparr>"
  using assms by (simp add: refresh_call_def Let_def)

lemma refresh_call_inv:
  assumes "one_refresh s" "i < length (tasks s)" "owned (tasks s ! i) = []"
  shows "one_refresh (refresh_call h baseUrl opts i s)"
proof (cases "refreshInFlight s")
  case None
  let ?s' = "refresh_call h baseUrl opts i s"
  from assms(1) None have o: "owners s = []" and f: "in_flight s = []"
    by (simp_all add: one_refresh_def)
  note fr = refresh_call_fresh [OF None, of h baseUrl opts i]
  have ow: "owners ?s' = [length (promises s)]"
    using owners_update_gain [OF assms(2) o fr(2)] by simp
  from fr(4) have "length (promises s) < length (promises ?s')
                   \<and> (in_flight ?s' = [] \<or> in_flight ?s' = [length (promises s)])"
  proof
    assume "\<exists>c r. requireEnv h ''CC_CLIENT_ID'' = Inr c \<and> requireEnv h ''CC_REFRESH_TOKEN'' = Inr r
            \<and> promises ?s' = promises s @ [Pending] \<and> sent ?s' = sent s @ [tokenRequest c r]"
    then have p: "promises ?s' = promises s @ [Pending]" by blast
    from in_flight_append_Pending [OF p] f p show ?thesis by simp
  next
    assume "\<exists>e. promises ?s' = promises s @ [Rejected e] \<and> sent ?s' = sent s"
    then obtain e where p: "promises ?s' = promises s @ [Rejected e]" by blast
    from in_flight_append_Rejected [OF p] f p show ?thesis by simp
  qed
  with ow fr(1) show ?thesis by (simp add: one_refresh_def)
next
  case (Some p)
  let ?s' = "s\<lparr>tasks := (tasks s)[i := AwaitRefreshJoined baseUrl opts p]\<rparr>"
  have "owners ?s' = owners s"
    by (rule owners_update_plain [OF assms(2,3)]) simp_all
  moreover have "in_flight ?s' = in_flight s" by (rule in_flight_same) simp
  ultimately have "one_refresh ?s'" using assms(1) Some by (simp add: one_refresh_def)
  then show ?thesis using Some by (simp add: refresh_call_join)
qed

lemma set_task_inv:
  assumes "one_refresh s" "i < length (tasks s)" "owned (tasks s ! i) = []" "owned t = []"
  shows "one_refresh (s\<lparr>tasks := (tasks s)[i := t]\<rparr>)"
proof -
  let ?s' = "s\<lparr>tasks := (tasks s)[i := t]\<rparr>"
  have "owners ?s' = owners s" by (rule owners_update_plain [OF assms(2,3,4)]) simp
  moreover have "in_flight ?s' = in_flight s" by (rule in_flight_same) simp
  ultimately show ?thesis using assms(1) by (simp add: one_refresh_def split: option.splits)
qed

lemma catch_first_inv:
  assumes "one_refresh s" "i < length (tasks s)" "owned (tasks s ! i) = []"
  shows "one_refresh (catch_first h baseUrl opts i e s)"
  using refresh_call_inv [OF assms] set_task_inv [OF assms, of "Done (Inl e)"]
  by (simp add: catch_first_def)

lemma reply_inv:
  assumes "reply h i out s = Some s'" "one_refresh s"
  shows "one_refresh s'"
proof -
  from assms(1) have i: "i < length (tasks s)" by (simp add: reply_def split: if_splits)
  show ?thesis
  proof (cases "tasks s ! i")
    case (AwaitFirst baseUrl opts)
    then have o: "owned (tasks s ! i) = []" by simp
    show ?thesis
    proof (cases "attempt_result h out")
      case (Inl e)
      with assms(1) i AwaitFirst have "s' = catch_first h baseUrl opts i e s"
        by (simp add: reply_def)
      then show ?thesis using catch_first_inv [OF assms(2) i o] by simp
    next
      case (Inr r)
      with assms(1) i AwaitFirst have "s' = s\<lparr>tasks := (tasks s)[i := Done (Inr r)]\<rparr>"
        by (simp add: reply_def)
      then show ?thesis using set_task_inv [OF assms(2) i o, of "Done (Inr r)"] by simp
    qed
  next
    case (AwaitRetry baseUrl opts)
    then have o: "owned (tasks s ! i) = []" by simp
    from assms(1) i AwaitRetry
    have "s' = s\<lparr>tasks := (tasks s)[i := Done (attempt_result h out)]\<rparr>"
      by (simp add: reply_def)
    then show ?thesis using set_task_inv [OF assms(2) i o, of "Done (attempt_result h out)"] by simp
  qed (use assms(1) i in \<open>simp_all add: reply_def\<close>)
qed

lemma getAccessToken_error_status:
  "getAccessToken h s = (Inl e, s1) \<Longrightarrow> err_status e = None"
  by (auto simp: getAccessToken_def Let_def Error_def split: if_splits)

lemma getAccessToken_system:
  "getAccessToken h (s :: system) = (r, s1) \<Longrightarrow>
   promises s1 = promises s \<and> tasks s1 = tasks s \<and> refreshInFlight s1 = refreshInFlight s
   \<and> sent s1 = sent s"
  by (auto simp: getAccessToken_def Let_def split: if_splits)

lemma one_refresh_cong:
  "promises s1 = promises s \<Longrightarrow> tasks s1 = tasks s \<Longrightarrow> refreshInFlight s1 = refreshInFlight s \<Longrightarrow>
   one_refresh s1 = one_refresh s"
  by (simp add: one_refresh_def in_flight_def owners_def split: option.splits)

lemma append_task_inv:
  assumes "one_refresh s" "owned t = []"
  shows "one_refresh (s\<lparr>tasks := tasks s @ [t]\<rparr>)"
  using assms by (simp add: one_refresh_def in_flight_def owners_def split: option.splits)

text \<open>What is thrown before the first \<^verbatim>\<open>fetch\<close> has no status, and leaves \<^verbatim>\<open>ccFetchJson\<close>.\<close>

lemma call_eq:
  "call h opts s =
     (case requireEnv h ''CC_BASE_URL'' of
        Inl e \<Rightarrow> s\<lparr>tasks := tasks s @ [Done (Inl e)]\<rparr>
      | Inr baseUrl \<Rightarrow>
          (case getAccessToken h s of
             (Inl e, s1) \<Rightarrow> s1\<lparr>tasks := tasks s1 @ [Done (Inl e)]\<rparr>
           | (Inr token, s1) \<Rightarrow>
               (case ccUrl h baseUrl opts of
                  Inl e \<Rightarrow> s1\<lparr>tasks := tasks s1 @ [Done (Inl e)]\<rparr>
                | Inr url \<Rightarrow>
                    s1\<lparr>sent := sent s1 @ [ccRequest url token opts],
                       tasks := tasks s1 @ [AwaitFirst baseUrl opts]\<rparr>)))"
proof (cases "requireEnv h ''CC_BASE_URL''")
  case (Inl e)
  then show ?thesis by (simp add: call_def)
next
  case (Inr baseUrl)
  obtain r s1 where g: "getAccessToken h s = (r, s1)" by (cases "getAccessToken h s")
  have t1: "tasks s1 = tasks s" using getAccessToken_system [OF g] by simp
  have upd: "(tasks s1 @ [AwaitFirst baseUrl opts])[length (tasks s) := x] = tasks s1 @ [x]" for x
    using t1 by simp
  show ?thesis
  proof (cases r)
    case (Inl e)
    from getAccessToken_error_status g Inl have "err_status e = None" by blast
    with \<open>requireEnv h ''CC_BASE_URL'' = Inr baseUrl\<close> g Inl upd show ?thesis
      by (simp add: call_def catch_first_def Let_def)
  next
    case (Inr token)
    show ?thesis
    proof (cases "ccUrl h baseUrl opts")
      case (Inl e)
      have "err_status e = None" by (rule ccUrl_error(2) [OF Inl])
      with \<open>requireEnv h ''CC_BASE_URL'' = Inr baseUrl\<close> g \<open>r = Inr token\<close> Inl upd show ?thesis
        by (simp add: call_def catch_first_def Let_def)
    next
      case (Inr url)
      with \<open>requireEnv h ''CC_BASE_URL'' = Inr baseUrl\<close> g \<open>r = Inr token\<close> show ?thesis
        by (simp add: call_def Let_def)
    qed
  qed
qed

lemma call_inv:
  assumes "one_refresh s"
  shows "one_refresh (call h opts s)"
proof -
  obtain r s1 where g: "getAccessToken h s = (r, s1)" by (cases "getAccessToken h s")
  from getAccessToken_system [OF g] have eq: "one_refresh s1"
    using one_refresh_cong [of s1 s] assms by simp
  have d0: "one_refresh (s\<lparr>tasks := tasks s @ [Done x]\<rparr>)" for x
    using append_task_inv [OF assms, of "Done x"] by simp
  have d1: "one_refresh (s1\<lparr>tasks := tasks s1 @ [Done x]\<rparr>)" for x
    using append_task_inv [OF eq, of "Done x"] by simp
  have a: "one_refresh (s1\<lparr>sent := sent s1 @ [req], tasks := tasks s1 @ [AwaitFirst baseUrl opts]\<rparr>)"
    for req baseUrl
    using append_task_inv [OF eq, of "AwaitFirst baseUrl opts"]
          one_refresh_cong [of "s1\<lparr>sent := sent s1 @ [req], tasks := tasks s1 @ [AwaitFirst baseUrl opts]\<rparr>"
                               "s1\<lparr>tasks := tasks s1 @ [AwaitFirst baseUrl opts]\<rparr>"]
    by simp
  show ?thesis using g d0 d1 a by (simp add: call_eq split: sum.splits)
qed

lemma token_reply_settles:
  assumes "token_reply h p out s = Some s'"
  shows "p < length (promises s)" and "promises s ! p = Pending"
    and "\<exists>x. x \<noteq> Pending \<and> promises s' = (promises s)[p := x]"
    and "tasks s' = tasks s" and "refreshInFlight s' = refreshInFlight s" and "sent s' = sent s"
  using assms by (auto simp: token_reply_def split: if_splits sum.splits)

lemma token_reply_inv:
  assumes "token_reply h p out s = Some s'" "one_refresh s"
  shows "one_refresh s'"
proof -
  note t = token_reply_settles [OF assms(1)]
  from t(3) obtain x where x: "x \<noteq> Pending" "promises s' = (promises s)[p := x]" by blast
  have f: "in_flight s' = filter (\<lambda>q. q \<noteq> p) (in_flight s)" by (rule in_flight_settle [OF x(2,1)])
  have o: "owners s' = owners s" by (rule owners_same [OF t(4)])
  have l: "length (promises s') = length (promises s)" using x(2) by simp
  from t(1,2) have "p \<in> set (in_flight s)" by (simp add: in_flight_iff)
  with assms(2) f o l t(5) show ?thesis
    by (auto simp: one_refresh_def split: option.splits)
qed

lemma after_refresh_fields:
  assumes "after_refresh h baseUrl opts i ps s = Some s'"
  shows "ps \<noteq> Pending" and "promises s' = promises s" and "refreshInFlight s' = refreshInFlight s"
    and "accessTokenCache s' = accessTokenCache s"
    and "\<exists>t. owned t = [] \<and> tasks s' = (tasks s)[i := t]"
proof -
  show "ps \<noteq> Pending" "promises s' = promises s" "refreshInFlight s' = refreshInFlight s"
       "accessTokenCache s' = accessTokenCache s"
    using assms by (auto simp: after_refresh_def split: promise_state.splits sum.splits)
  show "\<exists>t. owned t = [] \<and> tasks s' = (tasks s)[i := t]"
  proof (cases ps)
    case Pending
    with assms show ?thesis by (simp add: after_refresh_def)
  next
    case (Fulfilled tok)
    show ?thesis
    proof (cases "ccUrl h baseUrl opts")
      case (Inl e)
      with assms Fulfilled
      have "owned (Done (Inl e)) = [] \<and> tasks s' = (tasks s)[i := Done (Inl e)]"
        by (auto simp: after_refresh_def)
      then show ?thesis by blast
    next
      case (Inr url)
      with assms Fulfilled
      have "owned (AwaitRetry baseUrl opts) = []
            \<and> tasks s' = (tasks s)[i := AwaitRetry baseUrl opts]"
        by (auto simp: after_refresh_def)
      then show ?thesis by blast
    qed
  next
    case (Rejected e)
    with assms have "owned (Done (Inl e)) = [] \<and> tasks s' = (tasks s)[i := Done (Inl e)]"
      by (auto simp: after_refresh_def)
    then show ?thesis by blast
  qed
qed

lemma resume_inv:
  assumes "resume h i s = Some s'" "one_refresh s"
  shows "one_refresh s'"
proof -
  from assms(1) have i: "i < length (tasks s)" by (simp add: resume_def split: if_splits)
  show ?thesis
  proof (cases "tasks s ! i")
    case (AwaitRefreshOwner baseUrl opts p)
    let ?s0 = "s\<lparr>refreshInFlight := None\<rparr>"
    from assms(1) i AwaitRefreshOwner
    have a: "after_refresh h baseUrl opts i (promises s ! p) ?s0 = Some s'" and p: "p < length (promises s)"
      by (simp_all add: resume_def split: if_splits)
    note f = after_refresh_fields [OF a]
    from f(5) obtain t where t: "owned t = []" "tasks s' = (tasks s)[i := t]" by auto
    have ow: "owned (tasks s ! i) = [p]" using AwaitRefreshOwner by simp
    from owners_split [OF i] ow have "p \<in> set (owners s)" by (simp add: owners_def)
    with assms(2) have m: "refreshInFlight s = Some p" "owners s = [p]"
                       "in_flight s = [] \<or> in_flight s = [p]"
      by (auto simp: one_refresh_def split: option.splits)
    have "p \<notin> set (in_flight s)" using f(1) by (simp add: in_flight_iff)
    with m(3) have "in_flight s = []" by auto
    moreover have "in_flight s' = in_flight s" by (rule in_flight_same) (use f(2) in simp)
    moreover have "owners s' = []" by (rule owners_update_release [OF i m(2) ow t(1)]) (use t(2) in simp)
    ultimately show ?thesis using f(3) by (simp add: one_refresh_def)
  next
    case (AwaitRefreshJoined baseUrl opts p)
    from assms(1) i AwaitRefreshJoined
    have a: "after_refresh h baseUrl opts i (promises s ! p) s = Some s'"
      by (simp_all add: resume_def split: if_splits)
    note f = after_refresh_fields [OF a]
    from f(5) obtain t where t: "owned t = []" "tasks s' = (tasks s)[i := t]" by auto
    have ow: "owned (tasks s ! i) = []" using AwaitRefreshJoined by simp
    have "owners s' = owners s" by (rule owners_update_plain [OF i ow t])
    moreover have "in_flight s' = in_flight s" by (rule in_flight_same [OF f(2)])
    ultimately show ?thesis using assms(2) f(2,3) by (simp add: one_refresh_def split: option.splits)
  qed (use assms(1) i in \<open>simp_all add: resume_def\<close>)
qed

lemma step_inv: "step h ev s = Some s' \<Longrightarrow> one_refresh s \<Longrightarrow> one_refresh s'"
  by (cases ev) (auto intro: call_inv reply_inv token_reply_inv resume_inv)

lemma run_inv: "run h evs s = Some s' \<Longrightarrow> one_refresh s \<Longrightarrow> one_refresh s'"
proof (induction evs arbitrary: s)
  case Nil
  then show ?case by simp
next
  case (Cons ev evs)
  from Cons.prems(1) obtain s1 where s1: "step h ev s = Some s1" "run h evs s1 = Some s'"
    by (auto split: option.splits)
  from step_inv [OF s1(1) Cons.prems(2)] Cons.IH [OF s1(2)] show ?case by simp
qed

lemma initial_inv: "one_refresh (initial_system h)"
  by (simp add: one_refresh_def initial_system_def in_flight_def owners_def)

lemma reachable_in_flight:
  assumes "run h evs (initial_system h) = Some s"
  shows "in_flight s = [] \<or> (\<exists>p. in_flight s = [p] \<and> refreshInFlight s = Some p)"
  using run_inv [OF assms initial_inv] by (auto simp: one_refresh_def split: option.splits)

subsection \<open>The addresses of the waiting tasks\<close>

lemma addressed_update:
  assumes "addressed h s" "i < length (tasks s)"
      and "address t = None \<or> address t = address (tasks s ! i)"
      and "tasks s' = (tasks s)[i := t]"
  shows "addressed h s'"
proof -
  have "tasks s ! i \<in> set (tasks s)" using assms(2) by simp
  with assms(1,3) have t: "case address t of
          None \<Rightarrow> True
        | Some (baseUrl, opts) \<Rightarrow> (case ccUrl h baseUrl opts of Inl e \<Rightarrow> False | Inr url \<Rightarrow> True)"
    unfolding addressed_def by (auto split: option.splits)
  have "set (tasks s') \<subseteq> insert t (set (tasks s))"
    unfolding assms(4) by (rule set_update_subset_insert)
  with assms(1) t show ?thesis unfolding addressed_def by blast
qed

lemma addressed_same: "tasks s' = tasks s \<Longrightarrow> addressed h s' = addressed h s"
  by (simp add: addressed_def)

lemma addressed_call: "addressed h s \<Longrightarrow> addressed h (call h opts s)"
proof -
  assume a: "addressed h s"
  obtain r s1 where g: "getAccessToken h s = (r, s1)" by (cases "getAccessToken h s")
  have t1: "tasks s1 = tasks s" using getAccessToken_system [OF g] by simp
  show ?thesis using a g t1
    by (auto simp: call_eq addressed_def split: sum.splits)
qed

lemma addressed_refresh_call:
  assumes "addressed h s" "i < length (tasks s)" "tasks s ! i = AwaitFirst baseUrl opts"
  shows "addressed h (refresh_call h baseUrl opts i s)"
proof (cases "refreshInFlight s")
  case None
  show ?thesis
    by (rule addressed_update [OF assms(1,2), of "AwaitRefreshOwner baseUrl opts (length (promises s))"])
       (simp_all add: assms(3) refresh_call_fresh(2) [OF None])
next
  case (Some p)
  show ?thesis
    by (rule addressed_update [OF assms(1,2), of "AwaitRefreshJoined baseUrl opts p"])
       (simp_all add: assms(3) refresh_call_join [OF Some])
qed

lemma addressed_reply:
  assumes "reply h i out s = Some s'" "addressed h s"
  shows "addressed h s'"
proof -
  from assms(1) have i: "i < length (tasks s)" by (simp add: reply_def split: if_splits)
  have d: "addressed h (s\<lparr>tasks := (tasks s)[i := Done x]\<rparr>)" for x
    by (rule addressed_update [OF assms(2) i, of "Done x"]) simp_all
  show ?thesis
  proof (cases "tasks s ! i")
    case (AwaitFirst baseUrl opts)
    with assms(1) i d addressed_refresh_call [OF assms(2) i AwaitFirst, of ] show ?thesis
      by (auto simp: reply_def catch_first_def split: sum.splits if_splits)
  next
    case (AwaitRetry baseUrl opts)
    with assms(1) i d show ?thesis by (auto simp: reply_def)
  qed (use assms(1) i in \<open>simp_all add: reply_def\<close>)
qed

lemma addressed_resume:
  assumes "resume h i s = Some s'" "addressed h s"
  shows "addressed h s'"
proof -
  from assms(1) have i: "i < length (tasks s)" by (simp add: resume_def split: if_splits)
  have u: "addressed h s'"
    if "after_refresh h baseUrl opts i ps s0 = Some s'" "tasks s0 = tasks s"
       "address (tasks s ! i) = Some (baseUrl, opts)" for baseUrl opts ps s0
  proof -
    from that(1) have "tasks s' = (tasks s0)[i := AwaitRetry baseUrl opts]
                       \<or> (\<exists>e. tasks s' = (tasks s0)[i := Done (Inl e)])"
      by (auto simp: after_refresh_def split: promise_state.splits sum.splits)
    then show ?thesis
    proof
      assume "tasks s' = (tasks s0)[i := AwaitRetry baseUrl opts]"
      then show ?thesis
        using addressed_update [OF assms(2) i, of "AwaitRetry baseUrl opts" s'] that(2,3) by simp
    next
      assume "\<exists>e. tasks s' = (tasks s0)[i := Done (Inl e)]"
      then obtain e where "tasks s' = (tasks s0)[i := Done (Inl e)]" ..
      then show ?thesis
        using addressed_update [OF assms(2) i, of "Done (Inl e)" s'] that(2) by simp
    qed
  qed
  show ?thesis
  proof (cases "tasks s ! i")
    case (AwaitRefreshOwner baseUrl opts p)
    with assms(1) i
    have "after_refresh h baseUrl opts i (promises s ! p) (s\<lparr>refreshInFlight := None\<rparr>) = Some s'"
      by (simp add: resume_def split: if_splits)
    from u [OF this] AwaitRefreshOwner show ?thesis by simp
  next
    case (AwaitRefreshJoined baseUrl opts p)
    with assms(1) i
    have "after_refresh h baseUrl opts i (promises s ! p) s = Some s'"
      by (simp add: resume_def split: if_splits)
    from u [OF this] AwaitRefreshJoined show ?thesis by simp
  qed (use assms(1) i in \<open>simp_all add: resume_def\<close>)
qed

lemma addressed_step: "step h ev s = Some s' \<Longrightarrow> addressed h s \<Longrightarrow> addressed h s'"
proof (cases ev)
  case (Call opts)
  assume "step h ev s = Some s'" "addressed h s"
  with Call addressed_call [of h s opts] show ?thesis by simp
next
  case (Reply i out)
  assume "step h ev s = Some s'" "addressed h s"
  with Reply addressed_reply [of h i out s s'] show ?thesis by simp
next
  case (TokenReply p out)
  assume "step h ev s = Some s'" "addressed h s"
  with TokenReply token_reply_settles(4) [of h p out s s'] addressed_same [of s' s h]
  show ?thesis by simp
next
  case (Resume i)
  assume "step h ev s = Some s'" "addressed h s"
  with Resume addressed_resume [of h i s s'] show ?thesis by simp
qed

lemma addressed_run: "run h evs s = Some s' \<Longrightarrow> addressed h s \<Longrightarrow> addressed h s'"
proof (induction evs arbitrary: s)
  case Nil
  then show ?case by simp
next
  case (Cons ev evs)
  from Cons.prems(1) obtain s1 where s1: "step h ev s = Some s1" "run h evs s1 = Some s'"
    by (auto split: option.splits)
  from addressed_step [OF s1(1) Cons.prems(2)] Cons.IH [OF s1(2)] show ?case by simp
qed

lemma reachable_address:
  assumes "run h evs (initial_system h) = Some s"
      and "i < length (tasks s)" "tasks s ! i = AwaitFirst baseUrl opts"
  shows "\<exists>url. ccUrl h baseUrl opts = Inr url"
proof -
  have "addressed h (initial_system h)" by (simp add: addressed_def initial_system_def)
  from addressed_run [OF assms(1) this] have "addressed h s" .
  moreover have "AwaitFirst baseUrl opts \<in> set (tasks s)"
    using assms(2,3) nth_mem [of i "tasks s"] by simp
  ultimately have "case ccUrl h baseUrl opts of Inl e \<Rightarrow> False | Inr url \<Rightarrow> True"
    unfolding addressed_def by fastforce
  then show ?thesis by (cases "ccUrl h baseUrl opts") simp_all
qed

subsection \<open>A burst of unauthorized requests\<close>

lemma run_append:
  "run h (xs @ ys) s = (case run h xs s of None \<Rightarrow> None | Some s1 \<Rightarrow> run h ys s1)"
  by (induction xs arbitrary: s) (auto split: option.splits)

lemma reply_unauthorized:
  assumes "i < length (tasks s)" "tasks s ! i = AwaitFirst baseUrl opts"
      and "attempt_result h out = Inl e" "err_status e = Some 401"
  shows "step h (Reply i out) s = Some (refresh_call h baseUrl opts i s)"
  using assms by (simp add: reply_def catch_first_def)

lemma joins:
  assumes "refreshInFlight s = Some p" "distinct is"
      and "\<forall>i\<in>set is. i < length (tasks s) \<and> tasks s ! i = AwaitFirst (base i) (opts i)"
      and "\<forall>i\<in>set is. \<exists>e. attempt_result h (out i) = Inl e \<and> err_status e = Some 401"
  shows "\<exists>s'. run h (map (\<lambda>i. Reply i (out i)) is) s = Some s'
             \<and> sent s' = sent s \<and> promises s' = promises s \<and> refreshInFlight s' = Some p
             \<and> accessTokenCache s' = accessTokenCache s \<and> length (tasks s') = length (tasks s)
             \<and> (\<forall>i\<in>set is. tasks s' ! i = AwaitRefreshJoined (base i) (opts i) p)
             \<and> (\<forall>j. j \<notin> set is \<longrightarrow> tasks s' ! j = tasks s ! j)"
  using assms
proof (induction "is" arbitrary: s)
  case Nil
  then show ?case by simp
next
  case (Cons i "is")
  let ?s1 = "s\<lparr>tasks := (tasks s)[i := AwaitRefreshJoined (base i) (opts i) p]\<rparr>"
  from Cons.prems(3) have i: "i < length (tasks s)" "tasks s ! i = AwaitFirst (base i) (opts i)"
    by simp_all
  from Cons.prems(4) obtain e where e: "attempt_result h (out i) = Inl e" "err_status e = Some 401"
    by auto
  have st: "step h (Reply i (out i)) s = Some ?s1"
    using reply_unauthorized [OF i e] Cons.prems(1) by (simp add: refresh_call_join)
  have ni: "i \<notin> set is" and d: "distinct is" using Cons.prems(2) by simp_all
  have a1: "refreshInFlight ?s1 = Some p" using Cons.prems(1) by simp
  have a3: "\<forall>k\<in>set is. k < length (tasks ?s1) \<and> tasks ?s1 ! k = AwaitFirst (base k) (opts k)"
  proof
    fix k assume k: "k \<in> set is"
    then have "k \<noteq> i" using ni by auto
    with Cons.prems(3) k show "k < length (tasks ?s1) \<and> tasks ?s1 ! k = AwaitFirst (base k) (opts k)"
      by simp
  qed
  have a4: "\<forall>k\<in>set is. \<exists>e. attempt_result h (out k) = Inl e \<and> err_status e = Some 401"
    using Cons.prems(4) by simp
  from Cons.IH [OF a1 d a3 a4] obtain s' where
    s': "run h (map (\<lambda>i. Reply i (out i)) is) ?s1 = Some s'"
        "sent s' = sent ?s1" "promises s' = promises ?s1" "refreshInFlight s' = Some p"
        "accessTokenCache s' = accessTokenCache ?s1" "length (tasks s') = length (tasks ?s1)"
        "\<forall>k\<in>set is. tasks s' ! k = AwaitRefreshJoined (base k) (opts k) p"
        "\<forall>j. j \<notin> set is \<longrightarrow> tasks s' ! j = tasks ?s1 ! j"
    by blast
  have "tasks s' ! i = AwaitRefreshJoined (base i) (opts i) p" using s'(8) ni i(1) by simp
  moreover have "\<forall>j. j \<notin> set (i # is) \<longrightarrow> tasks s' ! j = tasks s ! j" using s'(8) by simp
  moreover have "run h (map (\<lambda>i. Reply i (out i)) (i # is)) s = Some s'" using st s'(1) by simp
  ultimately show ?case using s'(2-7) by auto
qed

lemma resume_awaiting:
  assumes "j < length (tasks s)" "p < length (promises s)" "promises s ! p = Fulfilled tok"
      and "tasks s ! j = AwaitRefreshOwner baseUrl opts p \<or> tasks s ! j = AwaitRefreshJoined baseUrl opts p"
      and "ccUrl h baseUrl opts = Inr url"
  shows "\<exists>s'. step h (Resume j) s = Some s'
             \<and> sent s' = sent s @ [ccRequest url tok opts]
             \<and> promises s' = promises s \<and> accessTokenCache s' = accessTokenCache s
             \<and> tasks s' = (tasks s)[j := AwaitRetry baseUrl opts]
             \<and> (refreshInFlight s' = None \<or> refreshInFlight s' = refreshInFlight s)
             \<and> (tasks s ! j = AwaitRefreshOwner baseUrl opts p \<longrightarrow> refreshInFlight s' = None)"
  using assms by (auto simp: resume_def after_refresh_def)

lemma resumes:
  assumes "p < length (promises s)" "promises s ! p = Fulfilled tok" "distinct js"
      and "\<forall>j\<in>set js. j < length (tasks s)
             \<and> (tasks s ! j = AwaitRefreshOwner (base j) (opts j) p
                \<or> tasks s ! j = AwaitRefreshJoined (base j) (opts j) p)"
      and "\<forall>j\<in>set js. ccUrl h (base j) (opts j) = Inr (url j)"
  shows "\<exists>s'. run h (map Resume js) s = Some s'
             \<and> sent s' = sent s @ map (\<lambda>j. ccRequest (url j) tok (opts j)) js
             \<and> promises s' = promises s \<and> accessTokenCache s' = accessTokenCache s
             \<and> length (tasks s') = length (tasks s)
             \<and> (\<forall>j\<in>set js. tasks s' ! j = AwaitRetry (base j) (opts j))
             \<and> (\<forall>k. k \<notin> set js \<longrightarrow> tasks s' ! k = tasks s ! k)
             \<and> (refreshInFlight s' = None \<or> refreshInFlight s' = refreshInFlight s)
             \<and> ((\<exists>j\<in>set js. tasks s ! j = AwaitRefreshOwner (base j) (opts j) p)
                  \<longrightarrow> refreshInFlight s' = None)"
  using assms
proof (induction js arbitrary: s)
  case Nil
  then show ?case by simp
next
  case (Cons j js)
  from Cons.prems(4) have j: "j < length (tasks s)"
    "tasks s ! j = AwaitRefreshOwner (base j) (opts j) p
     \<or> tasks s ! j = AwaitRefreshJoined (base j) (opts j) p" by simp_all
  from Cons.prems(5) have uj: "ccUrl h (base j) (opts j) = Inr (url j)"
    and a5: "\<forall>k\<in>set js. ccUrl h (base k) (opts k) = Inr (url k)" by simp_all
  from resume_awaiting [OF j(1) Cons.prems(1,2) j(2) uj] obtain s1 where
    s1: "step h (Resume j) s = Some s1" "sent s1 = sent s @ [ccRequest (url j) tok (opts j)]"
        "promises s1 = promises s" "accessTokenCache s1 = accessTokenCache s"
        "tasks s1 = (tasks s)[j := AwaitRetry (base j) (opts j)]"
        "refreshInFlight s1 = None \<or> refreshInFlight s1 = refreshInFlight s"
        "tasks s ! j = AwaitRefreshOwner (base j) (opts j) p \<longrightarrow> refreshInFlight s1 = None"
    by blast
  have nj: "j \<notin> set js" and d: "distinct js" using Cons.prems(3) by simp_all
  have a1: "p < length (promises s1)" "promises s1 ! p = Fulfilled tok"
    using Cons.prems(1,2) s1(3) by simp_all
  have a4: "\<forall>k\<in>set js. k < length (tasks s1)
             \<and> (tasks s1 ! k = AwaitRefreshOwner (base k) (opts k) p
                \<or> tasks s1 ! k = AwaitRefreshJoined (base k) (opts k) p)"
  proof
    fix k assume k: "k \<in> set js"
    then have "k \<noteq> j" using nj by auto
    with Cons.prems(4) k s1(5)
    show "k < length (tasks s1)
             \<and> (tasks s1 ! k = AwaitRefreshOwner (base k) (opts k) p
                \<or> tasks s1 ! k = AwaitRefreshJoined (base k) (opts k) p)"
      by simp
  qed
  from Cons.IH [OF a1 d a4 a5] obtain s' where
    s': "run h (map Resume js) s1 = Some s'"
        "sent s' = sent s1 @ map (\<lambda>j. ccRequest (url j) tok (opts j)) js"
        "promises s' = promises s1" "accessTokenCache s' = accessTokenCache s1"
        "length (tasks s') = length (tasks s1)"
        "\<forall>k\<in>set js. tasks s' ! k = AwaitRetry (base k) (opts k)"
        "\<forall>k. k \<notin> set js \<longrightarrow> tasks s' ! k = tasks s1 ! k"
        "refreshInFlight s' = None \<or> refreshInFlight s' = refreshInFlight s1"
        "(\<exists>k\<in>set js. tasks s1 ! k = AwaitRefreshOwner (base k) (opts k) p)
           \<longrightarrow> refreshInFlight s' = None"
    by blast
  have r: "run h (map Resume (j # js)) s = Some s'" using s1(1) s'(1) by simp
  have t1: "tasks s' ! j = AwaitRetry (base j) (opts j)" using s'(7) nj s1(5) j(1) by simp
  have t2: "\<forall>k. k \<notin> set (j # js) \<longrightarrow> tasks s' ! k = tasks s ! k" using s'(7) s1(5) by simp
  have m1: "refreshInFlight s' = None \<or> refreshInFlight s' = refreshInFlight s"
    using s'(8) s1(6) by auto
  have m2: "refreshInFlight s' = None"
    if "\<exists>k\<in>set (j # js). tasks s ! k = AwaitRefreshOwner (base k) (opts k) p"
  proof (cases "tasks s ! j = AwaitRefreshOwner (base j) (opts j) p")
    case True
    with s1(7) s'(8) show ?thesis by auto
  next
    case False
    with that obtain k where k: "k \<in> set js" "tasks s ! k = AwaitRefreshOwner (base k) (opts k) p"
      by auto
    from k(1) nj have "k \<noteq> j" by auto
    with k(2) have "tasks s1 ! k = AwaitRefreshOwner (base k) (opts k) p" using s1(5) by simp
    with k(1) s'(9) show ?thesis by blast
  qed
  show ?case
    using r t1 t2 m1 m2 s'(2,3,4,5,6) s1(2,3,4,5) by auto
qed

lemma token_reply_fulfils:
  assumes "p < length (promises s)" "promises s ! p = Pending" "tokenResult h res = Inr tok"
  shows "step h (TokenReply p (Inr res)) s
           = Some (s\<lparr>accessTokenCache := tok, promises := (promises s)[p := Fulfilled tok]\<rparr>)"
  using assms by (simp add: token_reply_def)

lemma burst:
  assumes "refreshInFlight s = None"
      and "requireEnv h ''CC_CLIENT_ID'' = Inr clientId"
      and "requireEnv h ''CC_REFRESH_TOKEN'' = Inr refreshToken"
      and "distinct (i # is)"
      and "\<forall>k\<in>set (i # is). k < length (tasks s) \<and> tasks s ! k = AwaitFirst (base k) (opts k)"
      and "\<forall>k\<in>set (i # is). \<exists>e. attempt_result h (out k) = Inl e \<and> err_status e = Some 401"
      and "tokenResult h res = Inr tok"
      and "distinct js" and "set js = set (i # is)"
      and "\<forall>k\<in>set (i # is). ccUrl h (base k) (opts k) = Inr (url k)"
  shows "\<exists>s'. run h (map (\<lambda>k. Reply k (out k)) (i # is)
                     @ [TokenReply (length (promises s)) (Inr res)] @ map Resume js) s = Some s'
             \<and> sent s' = sent s @ [tokenRequest clientId refreshToken]
                            @ map (\<lambda>j. ccRequest (url j) tok (opts j)) js
             \<and> promises s' = promises s @ [Fulfilled tok]
             \<and> refreshInFlight s' = None \<and> accessTokenCache s' = tok
             \<and> (\<forall>j\<in>set js. tasks s' ! j = AwaitRetry (base j) (opts j))"
proof -
  let ?p = "length (promises s)"
  let ?s1 = "refresh_call h (base i) (opts i) i s"
  have i: "i < length (tasks s)" "tasks s ! i = AwaitFirst (base i) (opts i)"
    using assms(5) by simp_all
  from assms(6) obtain e where e: "attempt_result h (out i) = Inl e" "err_status e = Some 401"
    by auto
  have st1: "step h (Reply i (out i)) s = Some ?s1" by (rule reply_unauthorized [OF i e])
  have f1: "refreshInFlight ?s1 = Some ?p" "sent ?s1 = sent s @ [tokenRequest clientId refreshToken]"
           "promises ?s1 = promises s @ [Pending]"
           "tasks ?s1 = (tasks s)[i := AwaitRefreshOwner (base i) (opts i) ?p]"
           "accessTokenCache ?s1 = accessTokenCache s"
    by (simp_all add: refresh_call_configured [OF assms(1,2,3)])
  have ni: "i \<notin> set is" and d: "distinct is" using assms(4) by simp_all
  have a3: "\<forall>k\<in>set is. k < length (tasks ?s1) \<and> tasks ?s1 ! k = AwaitFirst (base k) (opts k)"
  proof
    fix k assume k: "k \<in> set is"
    then have "k \<noteq> i" using ni by auto
    with assms(5) k f1(4)
    show "k < length (tasks ?s1) \<and> tasks ?s1 ! k = AwaitFirst (base k) (opts k)" by simp
  qed
  have a4: "\<forall>k\<in>set is. \<exists>e. attempt_result h (out k) = Inl e \<and> err_status e = Some 401"
    using assms(6) by simp
  from joins [OF f1(1) d a3 a4] obtain s2 where
    s2: "run h (map (\<lambda>k. Reply k (out k)) is) ?s1 = Some s2"
        "sent s2 = sent ?s1" "promises s2 = promises ?s1" "refreshInFlight s2 = Some ?p"
        "accessTokenCache s2 = accessTokenCache ?s1" "length (tasks s2) = length (tasks ?s1)"
        "\<forall>k\<in>set is. tasks s2 ! k = AwaitRefreshJoined (base k) (opts k) ?p"
        "\<forall>j. j \<notin> set is \<longrightarrow> tasks s2 ! j = tasks ?s1 ! j"
    by blast
  have r2: "run h (map (\<lambda>k. Reply k (out k)) (i # is)) s = Some s2" using st1 s2(1) by simp
  have own: "tasks s2 ! i = AwaitRefreshOwner (base i) (opts i) ?p"
    using s2(8) ni f1(4) i(1) by simp
  let ?s3 = "s2\<lparr>accessTokenCache := tok, promises := (promises s2)[?p := Fulfilled tok]\<rparr>"
  have pp: "?p < length (promises s2)" "promises s2 ! ?p = Pending"
    using s2(3) f1(3) by simp_all
  have st3: "step h (TokenReply ?p (Inr res)) s2 = Some ?s3"
    by (rule token_reply_fulfils [OF pp assms(7)])
  have b1: "?p < length (promises ?s3)" "promises ?s3 ! ?p = Fulfilled tok" using pp(1) by simp_all
  have b4: "\<forall>j\<in>set js. j < length (tasks ?s3)
             \<and> (tasks ?s3 ! j = AwaitRefreshOwner (base j) (opts j) ?p
                \<or> tasks ?s3 ! j = AwaitRefreshJoined (base j) (opts j) ?p)"
  proof
    fix j assume "j \<in> set js"
    then have j: "j = i \<or> j \<in> set is" using assms(9) by auto
    then have "j < length (tasks s)" using assms(5) by auto
    then have l: "j < length (tasks ?s3)" using s2(6) f1(4) by simp
    from j own s2(7)
    have "tasks s2 ! j = AwaitRefreshOwner (base j) (opts j) ?p
          \<or> tasks s2 ! j = AwaitRefreshJoined (base j) (opts j) ?p" by auto
    with l show "j < length (tasks ?s3)
             \<and> (tasks ?s3 ! j = AwaitRefreshOwner (base j) (opts j) ?p
                \<or> tasks ?s3 ! j = AwaitRefreshJoined (base j) (opts j) ?p)" by simp
  qed
  have b5: "\<forall>j\<in>set js. ccUrl h (base j) (opts j) = Inr (url j)" using assms(9,10) by simp
  from resumes [OF b1 assms(8) b4 b5] obtain s' where
    s': "run h (map Resume js) ?s3 = Some s'"
        "sent s' = sent ?s3 @ map (\<lambda>j. ccRequest (url j) tok (opts j)) js"
        "promises s' = promises ?s3" "accessTokenCache s' = accessTokenCache ?s3"
        "\<forall>j\<in>set js. tasks s' ! j = AwaitRetry (base j) (opts j)"
        "(\<exists>j\<in>set js. tasks ?s3 ! j = AwaitRefreshOwner (base j) (opts j) ?p)
           \<longrightarrow> refreshInFlight s' = None"
    by blast
  have "i \<in> set js" using assms(9) by simp
  moreover have "tasks ?s3 ! i = AwaitRefreshOwner (base i) (opts i) ?p" using own by simp
  ultimately have m: "refreshInFlight s' = None" using s'(6) by blast
  have r: "run h (map (\<lambda>k. Reply k (out k)) (i # is)
                     @ [TokenReply ?p (Inr res)] @ map Resume js) s = Some s'"
  proof -
    have "run h (map (\<lambda>k. Reply k (out k)) (i # is)
                     @ [TokenReply ?p (Inr res)] @ map Resume js) s
            = run h ([TokenReply ?p (Inr res)] @ map Resume js) s2"
      by (simp only: run_append r2 option.case)
    also have "\<dots> = Some s'" using st3 s'(1) by simp
    finally show ?thesis .
  qed
  have "sent s' = sent s @ [tokenRequest clientId refreshToken]
                  @ map (\<lambda>j. ccRequest (url j) tok (opts j)) js"
    using s'(2) s2(2) f1(2) by simp
  moreover have "promises s' = promises s @ [Fulfilled tok]" using s'(3) s2(3) f1(3) by simp
  moreover have "accessTokenCache s' = tok" using s'(4) by simp
  ultimately show ?thesis using r m s'(5) by blast
qed

text \<open>The scenario of two concurrent requests, evaluated.\<close>

lemma two_waiting_eq:
  "two_waiting =
     \<lparr>accessTokenCache = JStr ''T1'', refreshInFlight = None,
      sent = [ccRequest ''https://api.cc.email/v3/contacts?limit=10'' (JStr ''T1'') list_contacts,
              ccRequest ''https://api.cc.email/v3/contacts?limit=10'' (JStr ''T1'') list_contacts],
      promises = [],
      tasks = [AwaitFirst ''https://api.cc.email/v3'' list_contacts,
               AwaitFirst ''https://api.cc.email/v3'' list_contacts]\<rparr>"
  by (simp add: two_waiting_def burst_host_def call_eq initial_system_def requireEnv_def
        getAccessToken_def env_or_null_def demo_host_def demo_vars_def demo_urls_def
        list_contacts_def url_defs Let_def)

lemma burst_url:
  "ccUrl burst_host ''https://api.cc.email/v3'' list_contacts
     = Inr ''https://api.cc.email/v3/contacts?limit=10''"
  by (simp add: burst_host_def demo_host_def demo_urls_def list_contacts_def url_defs)

lemma unauthorized_result:
  "\<exists>e. attempt_result burst_host (Inr unauthorized) = Inl e \<and> err_status e = Some 401"
  by (simp add: attempt_result_def ccResult_def res_ok_def unauthorized_def Let_def)

lemma token_T2_result: "tokenResult burst_host token_T2 = Inr (JStr ''T2'')"
  by (simp add: tokenResult_def burst_host_def demo_host_def demo_json_def token_T2_def
        res_ok_def safeJson_def js_coalesce_def Let_def)

lemma eval_run:
  "run burst_host [Call list_contacts, Call list_contacts, Reply 0 (Inr unauthorized),
                   Reply 1 (Inr unauthorized)] (initial_system burst_host)
     = Some \<lparr>accessTokenCache = JStr ''T1'', refreshInFlight = Some 0,
             sent = [ccRequest ''https://api.cc.email/v3/contacts?limit=10'' (JStr ''T1'') list_contacts,
                     ccRequest ''https://api.cc.email/v3/contacts?limit=10'' (JStr ''T1'') list_contacts,
                     tokenRequest ''client-1'' ''R1''],
             promises = [Pending],
             tasks = [AwaitRefreshOwner ''https://api.cc.email/v3'' list_contacts 0,
                      AwaitRefreshJoined ''https://api.cc.email/v3'' list_contacts 0]\<rparr>"
  by (simp add: burst_host_def call_eq initial_system_def requireEnv_def reply_def
        catch_first_def refresh_call_def attempt_result_def ccResult_def res_ok_def
        unauthorized_def getAccessToken_def env_or_null_def demo_host_def demo_vars_def
        demo_urls_def list_contacts_def url_defs Let_def)

text \<open>
  C1. Refresh de-duplication. In every state the event loop reaches from the start, at
  most one refresh promise is pending, that is, at most one request to the token endpoint
  is in flight, and the pending promise is the one in the slot. While the slot is
  occupied, every task whose first attempt fails with 401 is handed the promise in the
  slot: nothing is sent and no promise is created. And when, from a state with an empty
  slot and both variables configured, any number of tasks fail with 401 one after the
  other, the token endpoint then answers with a token, and the tasks resume in any order,
  exactly one request has gone to the token endpoint and every task has sent its retry
  with that same token, to \<open>url k\<close>, the address that the base URL and the options of task
  \<open>k\<close> give. They give one for every task that waits for its first response in a state
  the event loop reaches from the start.
\<close>

theorem refresh_deduplication:
  "(\<forall>evs s. run h evs (initial_system h) = Some s \<longrightarrow>
       in_flight s = [] \<or> (\<exists>p. in_flight s = [p] \<and> refreshInFlight s = Some p))
   \<and> (\<forall>s p is base opts out.
         refreshInFlight s = Some p \<and> distinct is
         \<and> (\<forall>i\<in>set is. i < length (tasks s) \<and> tasks s ! i = AwaitFirst (base i) (opts i))
         \<and> (\<forall>i\<in>set is. \<exists>e. attempt_result h (out i) = Inl e \<and> err_status e = Some 401) \<longrightarrow>
         (\<exists>s'. run h (map (\<lambda>i. Reply i (out i)) is) s = Some s'
              \<and> sent s' = sent s \<and> promises s' = promises s \<and> refreshInFlight s' = Some p
              \<and> (\<forall>i\<in>set is. tasks s' ! i = AwaitRefreshJoined (base i) (opts i) p)))
   \<and> (\<forall>s clientId refreshToken i is base opts url out res tok js.
         refreshInFlight s = None
         \<and> requireEnv h ''CC_CLIENT_ID'' = Inr clientId
         \<and> requireEnv h ''CC_REFRESH_TOKEN'' = Inr refreshToken
         \<and> distinct (i # is)
         \<and> (\<forall>k\<in>set (i # is). k < length (tasks s) \<and> tasks s ! k = AwaitFirst (base k) (opts k))
         \<and> (\<forall>k\<in>set (i # is). ccUrl h (base k) (opts k) = Inr (url k))
         \<and> (\<forall>k\<in>set (i # is). \<exists>e. attempt_result h (out k) = Inl e \<and> err_status e = Some 401)
         \<and> tokenResult h res = Inr tok
         \<and> distinct js \<and> set js = set (i # is) \<longrightarrow>
         (\<exists>s'. run h (map (\<lambda>k. Reply k (out k)) (i # is)
                       @ [TokenReply (length (promises s)) (Inr res)] @ map Resume js) s = Some s'
              \<and> sent s' = sent s @ [tokenRequest clientId refreshToken]
                             @ map (\<lambda>j. ccRequest (url j) tok (opts j)) js
              \<and> promises s' = promises s @ [Fulfilled tok]
              \<and> refreshInFlight s' = None \<and> accessTokenCache s' = tok
              \<and> (\<forall>j\<in>set js. tasks s' ! j = AwaitRetry (base j) (opts j))))
   \<and> (\<forall>evs s i baseUrl opts.
         run h evs (initial_system h) = Some s
         \<and> i < length (tasks s) \<and> tasks s ! i = AwaitFirst baseUrl opts \<longrightarrow>
         (\<exists>url. ccUrl h baseUrl opts = Inr url))"
proof (intro conjI allI impI)
  fix evs s
  assume "run h evs (initial_system h) = Some s"
  then show "in_flight s = [] \<or> (\<exists>p. in_flight s = [p] \<and> refreshInFlight s = Some p)"
    by (rule reachable_in_flight)
next
  fix s :: system and p "is" base opts out
  assume a: "refreshInFlight s = Some p \<and> distinct is
         \<and> (\<forall>i\<in>set is. i < length (tasks s) \<and> tasks s ! i = AwaitFirst (base i) (opts i))
         \<and> (\<forall>i\<in>set is. \<exists>e. attempt_result h (out i) = Inl e \<and> err_status e = Some 401)"
  then have a1: "refreshInFlight s = Some p" and a2: "distinct is"
    and a3: "\<forall>i\<in>set is. i < length (tasks s) \<and> tasks s ! i = AwaitFirst (base i) (opts i)"
    and a4: "\<forall>i\<in>set is. \<exists>e. attempt_result h (out i) = Inl e \<and> err_status e = Some 401"
    by blast+
  from joins [OF a1 a2 a3 a4]
  show "\<exists>s'. run h (map (\<lambda>i. Reply i (out i)) is) s = Some s'
              \<and> sent s' = sent s \<and> promises s' = promises s \<and> refreshInFlight s' = Some p
              \<and> (\<forall>i\<in>set is. tasks s' ! i = AwaitRefreshJoined (base i) (opts i) p)"
    by blast
next
  fix s :: system and clientId refreshToken i "is" base opts url out res tok js
  assume a: "refreshInFlight s = None
         \<and> requireEnv h ''CC_CLIENT_ID'' = Inr clientId
         \<and> requireEnv h ''CC_REFRESH_TOKEN'' = Inr refreshToken
         \<and> distinct (i # is)
         \<and> (\<forall>k\<in>set (i # is). k < length (tasks s) \<and> tasks s ! k = AwaitFirst (base k) (opts k))
         \<and> (\<forall>k\<in>set (i # is). ccUrl h (base k) (opts k) = Inr (url k))
         \<and> (\<forall>k\<in>set (i # is). \<exists>e. attempt_result h (out k) = Inl e \<and> err_status e = Some 401)
         \<and> tokenResult h res = Inr tok
         \<and> distinct js \<and> set js = set (i # is)"
  then have a1: "refreshInFlight s = None"
    and a2: "requireEnv h ''CC_CLIENT_ID'' = Inr clientId"
    and a3: "requireEnv h ''CC_REFRESH_TOKEN'' = Inr refreshToken"
    and a4: "distinct (i # is)"
    and a5: "\<forall>k\<in>set (i # is). k < length (tasks s) \<and> tasks s ! k = AwaitFirst (base k) (opts k)"
    and au: "\<forall>k\<in>set (i # is). ccUrl h (base k) (opts k) = Inr (url k)"
    and a6: "\<forall>k\<in>set (i # is). \<exists>e. attempt_result h (out k) = Inl e \<and> err_status e = Some 401"
    and a7: "tokenResult h res = Inr tok"
    and a8: "distinct js" and a9: "set js = set (i # is)"
    by blast+
  show "\<exists>s'. run h (map (\<lambda>k. Reply k (out k)) (i # is)
                       @ [TokenReply (length (promises s)) (Inr res)] @ map Resume js) s = Some s'
              \<and> sent s' = sent s @ [tokenRequest clientId refreshToken]
                             @ map (\<lambda>j. ccRequest (url j) tok (opts j)) js
              \<and> promises s' = promises s @ [Fulfilled tok]
              \<and> refreshInFlight s' = None \<and> accessTokenCache s' = tok
              \<and> (\<forall>j\<in>set js. tasks s' ! j = AwaitRetry (base j) (opts j))"
    by (rule burst [OF a1 a2 a3 a4 a5 a6 a7 a8 a9 au])
next
  fix evs i baseUrl opts and s :: system
  assume "run h evs (initial_system h) = Some s
         \<and> i < length (tasks s) \<and> tasks s ! i = AwaitFirst baseUrl opts"
  then have "run h evs (initial_system h) = Some s" "i < length (tasks s)"
    "tasks s ! i = AwaitFirst baseUrl opts" by blast+
  then show "\<exists>url. ccUrl h baseUrl opts = Inr url" by (rule reachable_address)
qed

theorem refresh_deduplication_witness:
  "(\<exists>s. run burst_host [Call list_contacts, Call list_contacts, Reply 0 (Inr unauthorized),
                         Reply 1 (Inr unauthorized)] (initial_system burst_host) = Some s
        \<and> (in_flight s = [] \<or> (\<exists>p. in_flight s = [p] \<and> refreshInFlight s = Some p)))
   \<and> run burst_host [Call list_contacts, Call list_contacts] (initial_system burst_host)
       = Some two_waiting
   \<and> refreshInFlight two_waiting = None
   \<and> tasks two_waiting = [AwaitFirst ''https://api.cc.email/v3'' list_contacts,
                           AwaitFirst ''https://api.cc.email/v3'' list_contacts]
   \<and> (\<exists>url. ccUrl burst_host ''https://api.cc.email/v3'' list_contacts = Inr url)
   \<and> ccUrl burst_host ''https://api.cc.email/v3'' list_contacts
       = Inr ''https://api.cc.email/v3/contacts?limit=10''
   \<and> tokenResult burst_host token_T2 = Inr (JStr ''T2'')
   \<and> (\<exists>s'. run burst_host
               [Reply 0 (Inr unauthorized), Reply 1 (Inr unauthorized), TokenReply 0 (Inr token_T2),
                Resume 1, Resume 0] two_waiting = Some s'
          \<and> sent s' = sent two_waiting
                       @ [tokenRequest ''client-1'' ''R1'',
                          ccRequest ''https://api.cc.email/v3/contacts?limit=10'' (JStr ''T2'') list_contacts,
                          ccRequest ''https://api.cc.email/v3/contacts?limit=10'' (JStr ''T2'') list_contacts]
          \<and> promises s' = [Fulfilled (JStr ''T2'')]
          \<and> refreshInFlight s' = None \<and> accessTokenCache s' = JStr ''T2''
          \<and> tasks s' ! 0 = AwaitRetry ''https://api.cc.email/v3'' list_contacts
          \<and> tasks s' ! 1 = AwaitRetry ''https://api.cc.email/v3'' list_contacts)"
proof -
  let ?url = "''https://api.cc.email/v3''"
  let ?addr = "''https://api.cc.email/v3/contacts?limit=10''"
  note th = refresh_deduplication [of burst_host]
  have m: "refreshInFlight two_waiting = None"
    and t: "tasks two_waiting = [AwaitFirst ?url list_contacts, AwaitFirst ?url list_contacts]"
    and p: "promises two_waiting = []"
    by (simp_all add: two_waiting_eq)
  have c: "requireEnv burst_host ''CC_CLIENT_ID'' = Inr ''client-1''"
          "requireEnv burst_host ''CC_REFRESH_TOKEN'' = Inr ''R1''"
    by (simp_all add: requireEnv_def burst_host_def demo_host_def demo_vars_def)
  have hyp: "refreshInFlight two_waiting = None
         \<and> requireEnv burst_host ''CC_CLIENT_ID'' = Inr ''client-1''
         \<and> requireEnv burst_host ''CC_REFRESH_TOKEN'' = Inr ''R1''
         \<and> distinct (0 # [Suc 0])
         \<and> (\<forall>k\<in>set (0 # [Suc 0]). k < length (tasks two_waiting)
               \<and> tasks two_waiting ! k = AwaitFirst ((\<lambda>_. ?url) k) ((\<lambda>_. list_contacts) k))
         \<and> (\<forall>k\<in>set (0 # [Suc 0]).
               ccUrl burst_host ((\<lambda>_. ?url) k) ((\<lambda>_. list_contacts) k) = Inr ((\<lambda>_. ?addr) k))
         \<and> (\<forall>k\<in>set (0 # [Suc 0]). \<exists>e. attempt_result burst_host ((\<lambda>_. Inr unauthorized) k) = Inl e
               \<and> err_status e = Some 401)
         \<and> tokenResult burst_host token_T2 = Inr (JStr ''T2'')
         \<and> distinct [Suc 0, 0] \<and> set [Suc 0, 0] = set (0 # [Suc 0])"
    using m c t unauthorized_result token_T2_result burst_url by auto
  from th have "\<forall>s clientId refreshToken i is base opts url out res tok js.
         refreshInFlight s = None
         \<and> requireEnv burst_host ''CC_CLIENT_ID'' = Inr clientId
         \<and> requireEnv burst_host ''CC_REFRESH_TOKEN'' = Inr refreshToken
         \<and> distinct (i # is)
         \<and> (\<forall>k\<in>set (i # is). k < length (tasks s) \<and> tasks s ! k = AwaitFirst (base k) (opts k))
         \<and> (\<forall>k\<in>set (i # is). ccUrl burst_host (base k) (opts k) = Inr (url k))
         \<and> (\<forall>k\<in>set (i # is). \<exists>e. attempt_result burst_host (out k) = Inl e \<and> err_status e = Some 401)
         \<and> tokenResult burst_host res = Inr tok
         \<and> distinct js \<and> set js = set (i # is) \<longrightarrow>
         (\<exists>s'. run burst_host (map (\<lambda>k. Reply k (out k)) (i # is)
                       @ [TokenReply (length (promises s)) (Inr res)] @ map Resume js) s = Some s'
              \<and> sent s' = sent s @ [tokenRequest clientId refreshToken]
                             @ map (\<lambda>j. ccRequest (url j) tok (opts j)) js
              \<and> promises s' = promises s @ [Fulfilled tok]
              \<and> refreshInFlight s' = None \<and> accessTokenCache s' = tok
              \<and> (\<forall>j\<in>set js. tasks s' ! j = AwaitRetry (base j) (opts j)))"
    by blast
  from this [rule_format, OF hyp] obtain s' where
    s': "run burst_host (map (\<lambda>k. Reply k (Inr unauthorized)) (0 # [Suc 0])
                       @ [TokenReply (length (promises two_waiting)) (Inr token_T2)]
                       @ map Resume [Suc 0, 0]) two_waiting = Some s'"
        "sent s' = sent two_waiting @ [tokenRequest ''client-1'' ''R1'']
                     @ map (\<lambda>j. ccRequest ?addr (JStr ''T2'') list_contacts) [Suc 0, 0]"
        "promises s' = promises two_waiting @ [Fulfilled (JStr ''T2'')]"
        "refreshInFlight s' = None" "accessTokenCache s' = JStr ''T2''"
        "\<forall>j\<in>set [Suc 0, 0]. tasks s' ! j = AwaitRetry ?url list_contacts"
    by blast
  have r: "run burst_host
               [Reply 0 (Inr unauthorized), Reply 1 (Inr unauthorized), TokenReply 0 (Inr token_T2),
                Resume 1, Resume 0] two_waiting = Some s'"
    using s'(1) p by simp
  have b: "\<exists>s'. run burst_host
               [Reply 0 (Inr unauthorized), Reply 1 (Inr unauthorized), TokenReply 0 (Inr token_T2),
                Resume 1, Resume 0] two_waiting = Some s'
          \<and> sent s' = sent two_waiting
                       @ [tokenRequest ''client-1'' ''R1'',
                          ccRequest ?addr (JStr ''T2'') list_contacts,
                          ccRequest ?addr (JStr ''T2'') list_contacts]
          \<and> promises s' = [Fulfilled (JStr ''T2'')]
          \<and> refreshInFlight s' = None \<and> accessTokenCache s' = JStr ''T2''
          \<and> tasks s' ! 0 = AwaitRetry ?url list_contacts
          \<and> tasks s' ! 1 = AwaitRetry ?url list_contacts"
    using r s'(2-6) p by auto
  from th have "\<forall>evs s. run burst_host evs (initial_system burst_host) = Some s \<longrightarrow>
       in_flight s = [] \<or> (\<exists>p. in_flight s = [p] \<and> refreshInFlight s = Some p)"
    by (rule conjunct1)
  from this [rule_format, OF eval_run] eval_run
  have a: "\<exists>s. run burst_host [Call list_contacts, Call list_contacts, Reply 0 (Inr unauthorized),
                         Reply 1 (Inr unauthorized)] (initial_system burst_host) = Some s
        \<and> (in_flight s = [] \<or> (\<exists>p. in_flight s = [p] \<and> refreshInFlight s = Some p))"
    by (intro exI conjI)
  have rw: "run burst_host [Call list_contacts, Call list_contacts] (initial_system burst_host)
              = Some two_waiting"
    by (simp add: two_waiting_def)
  from th have "\<forall>evs s i baseUrl opts.
         run burst_host evs (initial_system burst_host) = Some s
         \<and> i < length (tasks s) \<and> tasks s ! i = AwaitFirst baseUrl opts \<longrightarrow>
         (\<exists>url. ccUrl burst_host baseUrl opts = Inr url)"
    by (rule conjunct2 [OF conjunct2 [OF conjunct2]])
  from this [rule_format, of "[Call list_contacts, Call list_contacts]" two_waiting 0 ?url list_contacts]
       rw t
  have ad: "\<exists>url. ccUrl burst_host ?url list_contacts = Inr url" by simp
  from a rw m t ad burst_url token_T2_result b show ?thesis by (intro conjI)
qed

section \<open>A refresh without its configuration\<close>

lemma refresh_call_unconfigured:
  assumes "unset h ''CC_CLIENT_ID'' \<or> unset h ''CC_REFRESH_TOKEN''" "refreshInFlight s = None"
  shows "refresh_call h baseUrl opts i s
           = s\<lparr>refreshInFlight := Some (length (promises s)),
               promises := promises s @ [Rejected (config_error h)],
               tasks := (tasks s)[i := AwaitRefreshOwner baseUrl opts (length (promises s))]\<rparr>"
proof (cases "unset h ''CC_CLIENT_ID''")
  case True
  from requireEnv_unset [OF True] True assms(2) show ?thesis
    by (simp add: refresh_call_def config_error_def Let_def)
next
  case False
  with assms(1) have u: "unset h ''CC_REFRESH_TOKEN''" by simp
  from requireEnv_set [OF False] obtain c where "requireEnv h ''CC_CLIENT_ID'' = Inr c" ..
  with requireEnv_unset [OF u] False assms(2) show ?thesis
    by (simp add: refresh_call_def config_error_def Let_def)
qed

lemma ccRequest_not_tokenRequest: "ccRequest url token opts \<noteq> tokenRequest c r"
proof
  assume "ccRequest url token opts = tokenRequest c r"
  then have "req_headers (ccRequest url token opts) = req_headers (tokenRequest c r)" by simp
  then show False by (simp add: ccRequest_def tokenRequest_def split: if_splits)
qed

lemma never_exchanged_cong:
  "promises s' = promises s \<Longrightarrow> sent s' = sent s \<Longrightarrow> never_exchanged h s' = never_exchanged h s"
  by (simp add: never_exchanged_def)

lemma never_exchanged_sent:
  "never_exchanged h s \<Longrightarrow> promises s' = promises s \<Longrightarrow>
   sent s' = sent s @ [ccRequest url token opts] \<Longrightarrow> never_exchanged h s'"
  unfolding never_exchanged_def by (simp add: ball_Un) blast

lemma never_exchanged_rejected:
  "never_exchanged h s \<Longrightarrow> promises s' = promises s @ [Rejected (config_error h)] \<Longrightarrow>
   sent s' = sent s \<Longrightarrow> never_exchanged h s'"
  unfolding never_exchanged_def by simp

lemma never_exchanged_nth:
  "never_exchanged h s \<Longrightarrow> p < length (promises s) \<Longrightarrow> promises s ! p = Rejected (config_error h)"
  unfolding never_exchanged_def using nth_mem by blast

lemma never_exchanged_task:
  "never_exchanged h s \<Longrightarrow> never_exchanged h (s\<lparr>tasks := ts\<rparr>)"
  by (simp add: never_exchanged_def)

lemma never_exchanged_call:
  assumes "never_exchanged h s"
  shows "never_exchanged h (call h opts s)"
proof -
  obtain r s1 where g: "getAccessToken h s = (r, s1)" by (cases "getAccessToken h s")
  note k = getAccessToken_system [OF g]
  have n1: "never_exchanged h s1"
    using never_exchanged_cong [of s1 s h] k assms by simp
  have d0: "never_exchanged h (s\<lparr>tasks := ts\<rparr>)" for ts
    by (rule never_exchanged_task [OF assms])
  have d1: "never_exchanged h (s1\<lparr>tasks := ts\<rparr>)" for ts
    by (rule never_exchanged_task [OF n1])
  have a: "never_exchanged h (s1\<lparr>sent := sent s1 @ [ccRequest url token opts], tasks := ts\<rparr>)"
    for url token ts
    by (rule never_exchanged_sent [OF n1]) simp_all
  show ?thesis using g d0 d1 a by (simp add: call_eq split: sum.splits)
qed

lemma never_exchanged_refresh_call:
  assumes "unset h ''CC_CLIENT_ID'' \<or> unset h ''CC_REFRESH_TOKEN''" "never_exchanged h s"
  shows "never_exchanged h (refresh_call h baseUrl opts i s)"
proof (cases "refreshInFlight s")
  case None
  show ?thesis
    by (rule never_exchanged_rejected [OF assms(2)])
       (simp_all add: refresh_call_unconfigured [OF assms(1) None])
next
  case (Some p)
  have "never_exchanged h (s\<lparr>tasks := (tasks s)[i := AwaitRefreshJoined baseUrl opts p]\<rparr>)
          = never_exchanged h s"
    by (rule never_exchanged_cong) simp_all
  with assms(2) Some show ?thesis by (simp add: refresh_call_join)
qed

lemma never_exchanged_reply:
  assumes "unset h ''CC_CLIENT_ID'' \<or> unset h ''CC_REFRESH_TOKEN''"
      and "reply h i out s = Some s'" "never_exchanged h s"
  shows "never_exchanged h s'"
proof -
  from assms(2) have i: "i < length (tasks s)" by (simp add: reply_def split: if_splits)
  show ?thesis
  proof (cases "tasks s ! i")
    case (AwaitFirst baseUrl opts)
    show ?thesis
    proof (cases "attempt_result h out")
      case (Inl e)
      with assms(2) i AwaitFirst have "s' = catch_first h baseUrl opts i e s"
        by (simp add: reply_def)
      then show ?thesis
        using never_exchanged_refresh_call [OF assms(1,3), of baseUrl opts i]
              never_exchanged_task [OF assms(3), of "(tasks s)[i := Done (Inl e)]"]
        by (simp add: catch_first_def)
    next
      case (Inr r)
      with assms(2) i AwaitFirst have "s' = s\<lparr>tasks := (tasks s)[i := Done (Inr r)]\<rparr>"
        by (simp add: reply_def)
      then show ?thesis using never_exchanged_task [OF assms(3)] by simp
    qed
  next
    case (AwaitRetry baseUrl opts)
    with assms(2) i have "s' = s\<lparr>tasks := (tasks s)[i := Done (attempt_result h out)]\<rparr>"
      by (simp add: reply_def)
    then show ?thesis using never_exchanged_task [OF assms(3)] by simp
  qed (use assms(2) i in \<open>simp_all add: reply_def\<close>)
qed

lemma never_exchanged_after_refresh:
  assumes "after_refresh h baseUrl opts i (promises s ! p) s = Some s'" "p < length (promises s)"
      and "never_exchanged h s"
  shows "never_exchanged h s'"
proof -
  from never_exchanged_nth [OF assms(3,2)] assms(1)
  have "s' = s\<lparr>tasks := (tasks s)[i := Done (Inl (config_error h))]\<rparr>"
    by (simp add: after_refresh_def)
  then show ?thesis using never_exchanged_task [OF assms(3)] by simp
qed

lemma never_exchanged_resume:
  assumes "resume h i s = Some s'" "never_exchanged h s"
  shows "never_exchanged h s'"
proof -
  from assms(1) have i: "i < length (tasks s)" by (simp add: resume_def split: if_splits)
  have c: "never_exchanged h (s\<lparr>refreshInFlight := None\<rparr>)"
    using assms(2) by (simp add: never_exchanged_def)
  show ?thesis
  proof (cases "tasks s ! i")
    case (AwaitRefreshOwner baseUrl opts p)
    with assms(1) i
    have "after_refresh h baseUrl opts i (promises (s\<lparr>refreshInFlight := None\<rparr>) ! p)
                     (s\<lparr>refreshInFlight := None\<rparr>) = Some s'"
         "p < length (promises (s\<lparr>refreshInFlight := None\<rparr>))"
      by (simp_all add: resume_def split: if_splits)
    then show ?thesis using c by (rule never_exchanged_after_refresh)
  next
    case (AwaitRefreshJoined baseUrl opts p)
    with assms(1) i
    have "after_refresh h baseUrl opts i (promises s ! p) s = Some s'" "p < length (promises s)"
      by (simp_all add: resume_def split: if_splits)
    then show ?thesis using assms(2) by (rule never_exchanged_after_refresh)
  qed (use assms(1) i in \<open>simp_all add: resume_def\<close>)
qed

lemma never_exchanged_token_reply:
  assumes "token_reply h p out s = Some s'" "never_exchanged h s"
  shows "never_exchanged h s'"
proof -
  from assms(1) have "p < length (promises s)" "promises s ! p = Pending"
    by (simp_all add: token_reply_def split: if_splits)
  with never_exchanged_nth [OF assms(2), of p] show ?thesis by simp
qed

lemma never_exchanged_step:
  assumes "unset h ''CC_CLIENT_ID'' \<or> unset h ''CC_REFRESH_TOKEN''"
      and "step h ev s = Some s'" "never_exchanged h s"
  shows "never_exchanged h s'"
proof (cases ev)
  case (Call opts)
  with assms(2,3) never_exchanged_call [of h s opts] show ?thesis by simp
next
  case (Reply i out)
  with assms(2) have "reply h i out s = Some s'" by simp
  from never_exchanged_reply [OF assms(1) this assms(3)] show ?thesis .
next
  case (TokenReply p out)
  with assms(2) have "token_reply h p out s = Some s'" by simp
  from never_exchanged_token_reply [OF this assms(3)] show ?thesis .
next
  case (Resume i)
  with assms(2) have "resume h i s = Some s'" by simp
  from never_exchanged_resume [OF this assms(3)] show ?thesis .
qed

lemma never_exchanged_run:
  assumes "unset h ''CC_CLIENT_ID'' \<or> unset h ''CC_REFRESH_TOKEN''"
  shows "run h evs s = Some s' \<Longrightarrow> never_exchanged h s \<Longrightarrow> never_exchanged h s'"
proof (induction evs arbitrary: s)
  case Nil
  then show ?case by simp
next
  case (Cons ev evs)
  from Cons.prems(1) obtain s1 where s1: "step h ev s = Some s1" "run h evs s1 = Some s'"
    by (auto split: option.splits)
  from never_exchanged_step [OF assms s1(1) Cons.prems(2)] Cons.IH [OF s1(2)] show ?case by simp
qed

lemma never_exchanged_initial: "never_exchanged h (initial_system h)"
  by (simp add: never_exchanged_def initial_system_def)

lemma never_exchanged_no_token_request:
  assumes "never_exchanged h s"
  shows "tokenRequest c r \<notin> set (sent s)"
proof
  assume "tokenRequest c r \<in> set (sent s)"
  with assms obtain url token opts where "tokenRequest c r = ccRequest url token opts"
    unfolding never_exchanged_def by blast
  with ccRequest_not_tokenRequest [of url token opts c r] show False by simp
qed

lemma unconfigured_caller:
  assumes "unset h ''CC_CLIENT_ID'' \<or> unset h ''CC_REFRESH_TOKEN''"
      and "one_refresh s" "never_exchanged h s"
      and "i < length (tasks s)" "tasks s ! i = AwaitFirst baseUrl opts"
      and "attempt_result h out = Inl e" "err_status e = Some 401"
  shows "\<exists>s1 s2. step h (Reply i out) s = Some s1 \<and> step h (Resume i) s1 = Some s2
            \<and> tasks s2 ! i = Done (Inl (config_error h)) \<and> sent s2 = sent s"
proof (cases "refreshInFlight s")
  case None
  let ?p = "length (promises s)"
  let ?s1 = "s\<lparr>refreshInFlight := Some ?p, promises := promises s @ [Rejected (config_error h)],
               tasks := (tasks s)[i := AwaitRefreshOwner baseUrl opts ?p]\<rparr>"
  have a: "step h (Reply i out) s = Some ?s1"
    using reply_unauthorized [OF assms(4,5,6,7)] refresh_call_unconfigured [OF assms(1) None]
    by simp
  have b: "step h (Resume i) ?s1
             = Some (?s1\<lparr>refreshInFlight := None, tasks := (tasks ?s1)[i := Done (Inl (config_error h))]\<rparr>)"
    using assms(4) by (simp add: resume_def after_refresh_def)
  show ?thesis using a b assms(4) by simp
next
  case (Some p)
  let ?s1 = "s\<lparr>tasks := (tasks s)[i := AwaitRefreshJoined baseUrl opts p]\<rparr>"
  have a: "step h (Reply i out) s = Some ?s1"
    using reply_unauthorized [OF assms(4,5,6,7)] Some by (simp add: refresh_call_join)
  from assms(2) Some have p: "p < length (promises s)" by (simp add: one_refresh_def)
  from never_exchanged_nth [OF assms(3) p]
  have b: "step h (Resume i) ?s1 = Some (?s1\<lparr>tasks := (tasks ?s1)[i := Done (Inl (config_error h))]\<rparr>)"
    using assms(4) p by (simp add: resume_def after_refresh_def)
  show ?thesis using a b assms(4) by simp
qed

lemma eval_unconfigured:
  "run unconfigured_host [Call list_contacts] (initial_system unconfigured_host) = Some one_waiting"
  by (simp add: unconfigured_host_def call_eq initial_system_def requireEnv_def one_waiting_def
        getAccessToken_def env_or_null_def demo_host_def demo_vars_def demo_urls_def
        list_contacts_def url_defs Let_def)

text \<open>
  C9. Refresh configuration precondition. While the client identifier or the refresh
  token is unset (absent, or empty), the error of a refresh is
  \<^verbatim>\<open>Missing environment variable: NAME\<close> for an unset \<open>NAME\<close> among the two (the client
  identifier when both are unset). A refresh call that finds the slot empty throws it
  and leaves the module state unchanged. In the event loop no request to the token
  endpoint is ever sent, and every task whose first attempt fails with 401, in any
  reachable state, ends with that error and nothing is sent for it.
\<close>

theorem refresh_requires_configuration:
  assumes "unset h ''CC_CLIENT_ID'' \<or> unset h ''CC_REFRESH_TOKEN''"
  shows "(\<exists>name. (name = ''CC_CLIENT_ID'' \<or> name = ''CC_REFRESH_TOKEN'') \<and> unset h name
            \<and> config_error h = Error (''Missing environment variable: '' @ name))
         \<and> (\<forall>w. refreshInFlight w = None \<longrightarrow> refreshAccessToken h w = (Inl (config_error h), w))
         \<and> (\<forall>evs s c r. run h evs (initial_system h) = Some s \<longrightarrow> tokenRequest c r \<notin> set (sent s))
         \<and> (\<forall>evs s i baseUrl opts out e.
               run h evs (initial_system h) = Some s
               \<and> i < length (tasks s) \<and> tasks s ! i = AwaitFirst baseUrl opts
               \<and> attempt_result h out = Inl e \<and> err_status e = Some 401 \<longrightarrow>
               (\<exists>s1 s2. step h (Reply i out) s = Some s1 \<and> step h (Resume i) s1 = Some s2
                   \<and> tasks s2 ! i = Done (Inl (config_error h)) \<and> sent s2 = sent s))"
proof (intro conjI allI impI)
  show "\<exists>name. (name = ''CC_CLIENT_ID'' \<or> name = ''CC_REFRESH_TOKEN'') \<and> unset h name
            \<and> config_error h = Error (''Missing environment variable: '' @ name)"
    by (rule config_error_names [OF assms])
next
  fix w :: world
  assume "refreshInFlight w = None"
  then show "refreshAccessToken h w = (Inl (config_error h), w)"
    by (rule refreshAccessToken_unconfigured [OF assms])
next
  fix evs c r and s :: system
  assume "run h evs (initial_system h) = Some s"
  from never_exchanged_run [OF assms this never_exchanged_initial]
  show "tokenRequest c r \<notin> set (sent s)" by (rule never_exchanged_no_token_request)
next
  fix evs i baseUrl opts out e and s :: system
  assume a: "run h evs (initial_system h) = Some s
               \<and> i < length (tasks s) \<and> tasks s ! i = AwaitFirst baseUrl opts
               \<and> attempt_result h out = Inl e \<and> err_status e = Some 401"
  then have r: "run h evs (initial_system h) = Some s" and i: "i < length (tasks s)"
    and t: "tasks s ! i = AwaitFirst baseUrl opts"
    and e: "attempt_result h out = Inl e" "err_status e = Some 401" by blast+
  show "\<exists>s1 s2. step h (Reply i out) s = Some s1 \<and> step h (Resume i) s1 = Some s2
                   \<and> tasks s2 ! i = Done (Inl (config_error h)) \<and> sent s2 = sent s"
    by (rule unconfigured_caller [OF assms run_inv [OF r initial_inv]
          never_exchanged_run [OF assms r never_exchanged_initial] i t e])
qed

theorem refresh_requires_configuration_witness:
  "env unconfigured_host ''CC_REFRESH_TOKEN'' = None
   \<and> env unconfigured_host ''CC_CLIENT_ID'' = Some ''client-1''
   \<and> config_error unconfigured_host = Error ''Missing environment variable: CC_REFRESH_TOKEN''
   \<and> refreshInFlight (initial_world unconfigured_host) = None
   \<and> refreshAccessToken unconfigured_host (initial_world unconfigured_host)
       = (Inl (Error ''Missing environment variable: CC_REFRESH_TOKEN''),
          initial_world unconfigured_host)
   \<and> run unconfigured_host [Call list_contacts] (initial_system unconfigured_host) = Some one_waiting
   \<and> tasks one_waiting ! 0 = AwaitFirst ''https://api.cc.email/v3'' list_contacts
   \<and> tokenRequest ''client-1'' ''R1'' \<notin> set (sent one_waiting)
   \<and> (\<exists>s1 s2. step unconfigured_host (Reply 0 (Inr unauthorized)) one_waiting = Some s1
          \<and> step unconfigured_host (Resume 0) s1 = Some s2
          \<and> tasks s2 ! 0 = Done (Inl (Error ''Missing environment variable: CC_REFRESH_TOKEN''))
          \<and> sent s2 = sent one_waiting)"
proof -
  let ?h = unconfigured_host
  have e1: "env ?h ''CC_REFRESH_TOKEN'' = None"
    by (simp add: unconfigured_host_def demo_host_def demo_vars_def)
  have e2: "env ?h ''CC_CLIENT_ID'' = Some ''client-1''"
    by (simp add: unconfigured_host_def demo_host_def demo_vars_def)
  have u: "unset ?h ''CC_CLIENT_ID'' \<or> unset ?h ''CC_REFRESH_TOKEN''" using e1 by (simp add: unset_def)
  have ce: "config_error ?h = Error ''Missing environment variable: CC_REFRESH_TOKEN''"
    using e2 by (simp add: config_error_def unset_def)
  note th = refresh_requires_configuration [OF u]
  have w0: "refreshInFlight (initial_world ?h) = None" by (simp add: initial_world_def)
  from th have "\<forall>w. refreshInFlight w = None \<longrightarrow> refreshAccessToken ?h w = (Inl (config_error ?h), w)"
    by (rule conjunct1 [OF conjunct2])
  from this [rule_format, OF w0] ce
  have a1: "refreshAccessToken ?h (initial_world ?h)
       = (Inl (Error ''Missing environment variable: CC_REFRESH_TOKEN''), initial_world ?h)"
    by simp
  from th have "\<forall>evs s c r. run ?h evs (initial_system ?h) = Some s \<longrightarrow> tokenRequest c r \<notin> set (sent s)"
    by (rule conjunct1 [OF conjunct2 [OF conjunct2]])
  from this [rule_format, OF eval_unconfigured]
  have a2: "tokenRequest ''client-1'' ''R1'' \<notin> set (sent one_waiting)" .
  have t: "tasks one_waiting ! 0 = AwaitFirst ''https://api.cc.email/v3'' list_contacts"
    and l: "0 < length (tasks one_waiting)"
    by (simp_all add: one_waiting_def)
  have "\<exists>e. attempt_result ?h (Inr unauthorized) = Inl e \<and> err_status e = Some 401"
    by (simp add: attempt_result_def ccResult_def res_ok_def unauthorized_def Let_def)
  then obtain e where e: "attempt_result ?h (Inr unauthorized) = Inl e" "err_status e = Some 401"
    by blast
  have hyp: "run ?h [Call list_contacts] (initial_system ?h) = Some one_waiting
               \<and> 0 < length (tasks one_waiting)
               \<and> tasks one_waiting ! 0 = AwaitFirst ''https://api.cc.email/v3'' list_contacts
               \<and> attempt_result ?h (Inr unauthorized) = Inl e \<and> err_status e = Some 401"
    using eval_unconfigured e t l by simp
  from th have "\<forall>evs s i baseUrl opts out e.
               run ?h evs (initial_system ?h) = Some s
               \<and> i < length (tasks s) \<and> tasks s ! i = AwaitFirst baseUrl opts
               \<and> attempt_result ?h out = Inl e \<and> err_status e = Some 401 \<longrightarrow>
               (\<exists>s1 s2. step ?h (Reply i out) s = Some s1 \<and> step ?h (Resume i) s1 = Some s2
                   \<and> tasks s2 ! i = Done (Inl (config_error ?h)) \<and> sent s2 = sent s)"
    by (rule conjunct2 [OF conjunct2 [OF conjunct2]])
  from this [rule_format, OF hyp]
  have a3: "\<exists>s1 s2. step ?h (Reply 0 (Inr unauthorized)) one_waiting = Some s1
                 \<and> step ?h (Resume 0) s1 = Some s2
                 \<and> tasks s2 ! 0 = Done (Inl (Error ''Missing environment variable: CC_REFRESH_TOKEN''))
                 \<and> sent s2 = sent one_waiting"
    by (simp only: ce)
  from e1 e2 ce w0 a1 eval_unconfigured t a2 a3 show ?thesis by (intro conjI)
qed

section \<open>The lifecycle of the refresh slot\<close>

lemma slot_created:
  assumes "i < length (tasks s)" "tasks s ! i = AwaitFirst baseUrl opts"
      and "attempt_result h out = Inl e" "err_status e = Some 401"
      and "refreshInFlight s = None"
  shows "\<exists>s'. step h (Reply i out) s = Some s'
             \<and> refreshInFlight s' = Some (length (promises s))
             \<and> length (promises s') = Suc (length (promises s))
             \<and> tasks s' = (tasks s)[i := AwaitRefreshOwner baseUrl opts (length (promises s))]
             \<and> (\<forall>c r. requireEnv h ''CC_CLIENT_ID'' = Inr c \<and> requireEnv h ''CC_REFRESH_TOKEN'' = Inr r
                   \<longrightarrow> promises s' = promises s @ [Pending] \<and> sent s' = sent s @ [tokenRequest c r])"
proof -
  note f = refresh_call_fresh [OF assms(5), of h baseUrl opts i]
  have l: "length (promises (refresh_call h baseUrl opts i s)) = Suc (length (promises s))"
    using f(4) by auto
  have c: "promises (refresh_call h baseUrl opts i s) = promises s @ [Pending]
           \<and> sent (refresh_call h baseUrl opts i s) = sent s @ [tokenRequest c r]"
    if "requireEnv h ''CC_CLIENT_ID'' = Inr c" "requireEnv h ''CC_REFRESH_TOKEN'' = Inr r" for c r
    using refresh_call_configured [OF assms(5) that, of baseUrl opts i] by simp
  show ?thesis
    using reply_unauthorized [OF assms(1,2,3,4)] f(1,2) l c by auto
qed

lemma slot_cleared:
  assumes "i < length (tasks s)" "tasks s ! i = AwaitRefreshOwner baseUrl opts p"
      and "p < length (promises s)"
  shows "step h (Resume i) s =
           (case promises s ! p of
              Pending \<Rightarrow> None
            | Fulfilled newToken \<Rightarrow>
                (case ccUrl h baseUrl opts of
                   Inl e \<Rightarrow>
                     Some (s\<lparr>refreshInFlight := None, tasks := (tasks s)[i := Done (Inl e)]\<rparr>)
                 | Inr url \<Rightarrow>
                     Some (s\<lparr>refreshInFlight := None,
                             sent := sent s @ [ccRequest url newToken opts],
                             tasks := (tasks s)[i := AwaitRetry baseUrl opts]\<rparr>))
            | Rejected e \<Rightarrow>
                Some (s\<lparr>refreshInFlight := None, tasks := (tasks s)[i := Done (Inl e)]\<rparr>))"
  using assms by (simp add: resume_def after_refresh_def split: promise_state.splits sum.splits)

text \<open>
  C6. Pending-refresh lifecycle. A refresh call that finds the slot empty creates a new
  promise and puts it in the slot (with the request to the token endpoint sent when both
  variables are configured). The task that created it cannot go on while the promise is
  pending; once the promise is settled, fulfilled or rejected, the task's next step
  empties the slot and only then sends the retry or throws (the rejection, or what the
  \<^verbatim>\<open>URL\<close> constructor throws at the retry). In every reachable state the slot is occupied
  exactly while the creating task is suspended at line 140. A call that runs without
  interleaving from an empty slot leaves the slot empty, and every such call performs the
  exchange afresh.
\<close>

theorem pending_refresh_lifecycle:
  "(\<forall>s i baseUrl opts out e.
       i < length (tasks s) \<and> tasks s ! i = AwaitFirst baseUrl opts
       \<and> attempt_result h out = Inl e \<and> err_status e = Some 401 \<and> refreshInFlight s = None \<longrightarrow>
       (\<exists>s'. step h (Reply i out) s = Some s'
            \<and> refreshInFlight s' = Some (length (promises s))
            \<and> length (promises s') = Suc (length (promises s))
            \<and> tasks s' = (tasks s)[i := AwaitRefreshOwner baseUrl opts (length (promises s))]
            \<and> (\<forall>c r. requireEnv h ''CC_CLIENT_ID'' = Inr c \<and> requireEnv h ''CC_REFRESH_TOKEN'' = Inr r
                  \<longrightarrow> promises s' = promises s @ [Pending] \<and> sent s' = sent s @ [tokenRequest c r])))
   \<and> (\<forall>s i baseUrl opts p.
         i < length (tasks s) \<and> tasks s ! i = AwaitRefreshOwner baseUrl opts p
         \<and> p < length (promises s) \<longrightarrow>
         step h (Resume i) s =
           (case promises s ! p of
              Pending \<Rightarrow> None
            | Fulfilled newToken \<Rightarrow>
                (case ccUrl h baseUrl opts of
                   Inl e \<Rightarrow>
                     Some (s\<lparr>refreshInFlight := None, tasks := (tasks s)[i := Done (Inl e)]\<rparr>)
                 | Inr url \<Rightarrow>
                     Some (s\<lparr>refreshInFlight := None,
                             sent := sent s @ [ccRequest url newToken opts],
                             tasks := (tasks s)[i := AwaitRetry baseUrl opts]\<rparr>))
            | Rejected e \<Rightarrow>
                Some (s\<lparr>refreshInFlight := None, tasks := (tasks s)[i := Done (Inl e)]\<rparr>)))
   \<and> (\<forall>evs s. run h evs (initial_system h) = Some s \<longrightarrow>
         (case refreshInFlight s of
            None \<Rightarrow> in_flight s = [] \<and> owners s = []
          | Some p \<Rightarrow> p < length (promises s) \<and> owners s = [p]))
   \<and> (\<forall>w. refreshInFlight w = None \<longrightarrow>
         refreshAccessToken h w = refreshExchange h w
         \<and> refreshInFlight (snd (refreshAccessToken h w)) = None)"
proof (intro conjI allI impI)
  fix s :: system and i baseUrl opts out e
  assume "i < length (tasks s) \<and> tasks s ! i = AwaitFirst baseUrl opts
       \<and> attempt_result h out = Inl e \<and> err_status e = Some 401 \<and> refreshInFlight s = None"
  then have a: "i < length (tasks s)" "tasks s ! i = AwaitFirst baseUrl opts"
    "attempt_result h out = Inl e" "err_status e = Some 401" "refreshInFlight s = None"
    by blast+
  show "\<exists>s'. step h (Reply i out) s = Some s'
            \<and> refreshInFlight s' = Some (length (promises s))
            \<and> length (promises s') = Suc (length (promises s))
            \<and> tasks s' = (tasks s)[i := AwaitRefreshOwner baseUrl opts (length (promises s))]
            \<and> (\<forall>c r. requireEnv h ''CC_CLIENT_ID'' = Inr c \<and> requireEnv h ''CC_REFRESH_TOKEN'' = Inr r
                  \<longrightarrow> promises s' = promises s @ [Pending] \<and> sent s' = sent s @ [tokenRequest c r])"
    by (rule slot_created [OF a])
next
  fix s :: system and i baseUrl opts p
  assume "i < length (tasks s) \<and> tasks s ! i = AwaitRefreshOwner baseUrl opts p
         \<and> p < length (promises s)"
  then have a: "i < length (tasks s)" "tasks s ! i = AwaitRefreshOwner baseUrl opts p"
    "p < length (promises s)" by blast+
  show "step h (Resume i) s =
           (case promises s ! p of
              Pending \<Rightarrow> None
            | Fulfilled newToken \<Rightarrow>
                (case ccUrl h baseUrl opts of
                   Inl e \<Rightarrow>
                     Some (s\<lparr>refreshInFlight := None, tasks := (tasks s)[i := Done (Inl e)]\<rparr>)
                 | Inr url \<Rightarrow>
                     Some (s\<lparr>refreshInFlight := None,
                             sent := sent s @ [ccRequest url newToken opts],
                             tasks := (tasks s)[i := AwaitRetry baseUrl opts]\<rparr>))
            | Rejected e \<Rightarrow>
                Some (s\<lparr>refreshInFlight := None, tasks := (tasks s)[i := Done (Inl e)]\<rparr>))"
    by (rule slot_cleared [OF a])
next
  fix evs and s :: system
  assume "run h evs (initial_system h) = Some s"
  from run_inv [OF this initial_inv]
  show "case refreshInFlight s of
            None \<Rightarrow> in_flight s = [] \<and> owners s = []
          | Some p \<Rightarrow> p < length (promises s) \<and> owners s = [p]"
    by (auto simp: one_refresh_def split: option.splits)
next
  fix w :: world
  assume "refreshInFlight w = None"
  then show "refreshAccessToken h w = refreshExchange h w"
    by (rule refreshAccessToken_empty_slot(1))
next
  fix w :: world
  assume "refreshInFlight w = None"
  then show "refreshInFlight (snd (refreshAccessToken h w)) = None"
    by (rule refreshAccessToken_empty_slot(2))
qed

theorem pending_refresh_lifecycle_witness:
  "refreshInFlight two_waiting = None
   \<and> tasks two_waiting ! 0 = AwaitFirst ''https://api.cc.email/v3'' list_contacts
   \<and> (\<exists>s'. step burst_host (Reply 0 (Inr unauthorized)) two_waiting = Some s'
          \<and> refreshInFlight s' = Some 0
          \<and> promises s' = [Pending]
          \<and> sent s' = sent two_waiting @ [tokenRequest ''client-1'' ''R1''])
   \<and> step burst_host (Resume 0) (settled Pending) = None
   \<and> ccUrl burst_host ''https://api.cc.email/v3'' list_contacts
       = Inr ''https://api.cc.email/v3/contacts?limit=10''
   \<and> step burst_host (Resume 0) (settled (Fulfilled (JStr ''T2'')))
       = Some ((settled (Fulfilled (JStr ''T2'')))
                 \<lparr>refreshInFlight := None,
                  sent := sent (settled (Fulfilled (JStr ''T2'')))
                          @ [ccRequest ''https://api.cc.email/v3/contacts?limit=10'' (JStr ''T2'') list_contacts],
                  tasks := [AwaitRetry ''https://api.cc.email/v3'' list_contacts]\<rparr>)
   \<and> step burst_host (Resume 0) (settled (Rejected (Error ''network down'')))
       = Some ((settled (Rejected (Error ''network down'')))
                 \<lparr>refreshInFlight := None, tasks := [Done (Inl (Error ''network down''))]\<rparr>)
   \<and> (\<exists>s. run burst_host [Call list_contacts, Call list_contacts, Reply 0 (Inr unauthorized),
                           Reply 1 (Inr unauthorized)] (initial_system burst_host) = Some s
          \<and> refreshInFlight s = Some 0 \<and> owners s = [0])
   \<and> refreshInFlight (initial_world burst_host) = None
   \<and> refreshAccessToken burst_host (initial_world burst_host)
       = refreshExchange burst_host (initial_world burst_host)
   \<and> refreshInFlight (snd (refreshAccessToken burst_host (initial_world burst_host))) = None"
proof -
  let ?url = "''https://api.cc.email/v3''"
  let ?addr = "''https://api.cc.email/v3/contacts?limit=10''"
  note th = pending_refresh_lifecycle [of burst_host]
  from th have c1: "\<forall>s i baseUrl opts out e.
       i < length (tasks s) \<and> tasks s ! i = AwaitFirst baseUrl opts
       \<and> attempt_result burst_host out = Inl e \<and> err_status e = Some 401 \<and> refreshInFlight s = None \<longrightarrow>
       (\<exists>s'. step burst_host (Reply i out) s = Some s'
            \<and> refreshInFlight s' = Some (length (promises s))
            \<and> length (promises s') = Suc (length (promises s))
            \<and> tasks s' = (tasks s)[i := AwaitRefreshOwner baseUrl opts (length (promises s))]
            \<and> (\<forall>c r. requireEnv burst_host ''CC_CLIENT_ID'' = Inr c
                     \<and> requireEnv burst_host ''CC_REFRESH_TOKEN'' = Inr r
                  \<longrightarrow> promises s' = promises s @ [Pending] \<and> sent s' = sent s @ [tokenRequest c r]))"
    by (rule conjunct1)
  from th have c2: "\<forall>s i baseUrl opts p.
         i < length (tasks s) \<and> tasks s ! i = AwaitRefreshOwner baseUrl opts p
         \<and> p < length (promises s) \<longrightarrow>
         step burst_host (Resume i) s =
           (case promises s ! p of
              Pending \<Rightarrow> None
            | Fulfilled newToken \<Rightarrow>
                (case ccUrl burst_host baseUrl opts of
                   Inl e \<Rightarrow>
                     Some (s\<lparr>refreshInFlight := None, tasks := (tasks s)[i := Done (Inl e)]\<rparr>)
                 | Inr url \<Rightarrow>
                     Some (s\<lparr>refreshInFlight := None,
                             sent := sent s @ [ccRequest url newToken opts],
                             tasks := (tasks s)[i := AwaitRetry baseUrl opts]\<rparr>))
            | Rejected e \<Rightarrow>
                Some (s\<lparr>refreshInFlight := None, tasks := (tasks s)[i := Done (Inl e)]\<rparr>))"
    by (rule conjunct1 [OF conjunct2])
  from th have c3: "\<forall>evs s. run burst_host evs (initial_system burst_host) = Some s \<longrightarrow>
         (case refreshInFlight s of
            None \<Rightarrow> in_flight s = [] \<and> owners s = []
          | Some p \<Rightarrow> p < length (promises s) \<and> owners s = [p])"
    by (rule conjunct1 [OF conjunct2 [OF conjunct2]])
  from th have c4: "\<forall>w. refreshInFlight w = None \<longrightarrow>
         refreshAccessToken burst_host w = refreshExchange burst_host w
         \<and> refreshInFlight (snd (refreshAccessToken burst_host w)) = None"
    by (rule conjunct2 [OF conjunct2 [OF conjunct2]])
  have m: "refreshInFlight two_waiting = None"
    and t: "tasks two_waiting ! 0 = AwaitFirst ?url list_contacts"
    and l: "0 < length (tasks two_waiting)" and p: "promises two_waiting = []"
    by (simp_all add: two_waiting_eq)
  have c: "requireEnv burst_host ''CC_CLIENT_ID'' = Inr ''client-1''
           \<and> requireEnv burst_host ''CC_REFRESH_TOKEN'' = Inr ''R1''"
    by (simp add: requireEnv_def burst_host_def demo_host_def demo_vars_def)
  from unauthorized_result obtain e where
    e: "attempt_result burst_host (Inr unauthorized) = Inl e" "err_status e = Some 401" by blast
  have h1: "0 < length (tasks two_waiting) \<and> tasks two_waiting ! 0 = AwaitFirst ?url list_contacts
       \<and> attempt_result burst_host (Inr unauthorized) = Inl e \<and> err_status e = Some 401
       \<and> refreshInFlight two_waiting = None"
    using l t e m by simp
  from c1 [rule_format, OF h1] obtain s' where
    s': "step burst_host (Reply 0 (Inr unauthorized)) two_waiting = Some s'"
        "refreshInFlight s' = Some (length (promises two_waiting))"
        "\<forall>c r. requireEnv burst_host ''CC_CLIENT_ID'' = Inr c
                \<and> requireEnv burst_host ''CC_REFRESH_TOKEN'' = Inr r
           \<longrightarrow> promises s' = promises two_waiting @ [Pending]
               \<and> sent s' = sent two_waiting @ [tokenRequest c r]"
    by blast
  from s'(3) [rule_format, OF c] s'(1,2) p
  have a1: "\<exists>s'. step burst_host (Reply 0 (Inr unauthorized)) two_waiting = Some s'
          \<and> refreshInFlight s' = Some 0
          \<and> promises s' = [Pending]
          \<and> sent s' = sent two_waiting @ [tokenRequest ''client-1'' ''R1'']"
    by auto
  have h2: "0 < length (tasks (settled ps)) \<and> tasks (settled ps) ! 0 = AwaitRefreshOwner ?url list_contacts 0
            \<and> 0 < length (promises (settled ps))" for ps
    by (simp add: settled_def)
  have a2: "step burst_host (Resume 0) (settled Pending) = None"
    using c2 [rule_format, OF h2 [of Pending]] by (simp add: settled_def)
  have a3: "step burst_host (Resume 0) (settled (Fulfilled (JStr ''T2'')))
       = Some ((settled (Fulfilled (JStr ''T2'')))
                 \<lparr>refreshInFlight := None,
                  sent := sent (settled (Fulfilled (JStr ''T2'')))
                          @ [ccRequest ?addr (JStr ''T2'') list_contacts],
                  tasks := [AwaitRetry ?url list_contacts]\<rparr>)"
    using c2 [rule_format, OF h2 [of "Fulfilled (JStr ''T2'')"]] by (simp add: settled_def burst_url)
  have a4: "step burst_host (Resume 0) (settled (Rejected (Error ''network down'')))
       = Some ((settled (Rejected (Error ''network down'')))
                 \<lparr>refreshInFlight := None, tasks := [Done (Inl (Error ''network down''))]\<rparr>)"
    using c2 [rule_format, OF h2 [of "Rejected (Error ''network down'')"]] by (simp add: settled_def)
  from c3 [rule_format, OF eval_run] eval_run
  have a5: "\<exists>s. run burst_host [Call list_contacts, Call list_contacts, Reply 0 (Inr unauthorized),
                           Reply 1 (Inr unauthorized)] (initial_system burst_host) = Some s
          \<and> refreshInFlight s = Some 0 \<and> owners s = [0]"
    by simp
  have w0: "refreshInFlight (initial_world burst_host) = None" by (simp add: initial_world_def)
  note a6 = c4 [rule_format, OF w0]
  show ?thesis using m t a1 a2 burst_url a3 a4 a5 w0 a6 by (intro conjI) blast+
qed

section \<open>The two views agree\<close>

text \<open>
  \<^verbatim>\<open>ccFetchJson\<close> as a function of the module state is the run of the event loop in which
  the new call is alone: from a state with an empty slot, the schedule \<open>alone\<close> ends
  with the task done with the result of the function, in the module state the function
  returns, and with the slot empty again.
\<close>

lemma getAccessToken_world_of:
  "getAccessToken h (world_of s) = (fst (getAccessToken h s), world_of (snd (getAccessToken h s)))"
  by (simp add: getAccessToken_def world_of_def Let_def)

lemma after_unauthorized_agrees:
  assumes "refreshInFlight s = None" "i < length (tasks s)"
  shows "\<exists>s'. run h (after_unauthorized h baseUrl opts i (length (promises s)) (sent s))
                 (refresh_call h baseUrl opts i s) = Some s'
             \<and> length (tasks s') = length (tasks s)
             \<and> tasks s' ! i =
                 Done (fst (case refreshAccessToken h (world_of s) of
                              (Inl e', w3) \<Rightarrow> (Inl e', w3)
                            | (Inr newToken, w3) \<Rightarrow> ccFetchJsonWithToken h baseUrl newToken opts w3))
             \<and> world_of s' =
                 snd (case refreshAccessToken h (world_of s) of
                        (Inl e', w3) \<Rightarrow> (Inl e', w3)
                      | (Inr newToken, w3) \<Rightarrow> ccFetchJsonWithToken h baseUrl newToken opts w3)
             \<and> refreshInFlight s' = None"
  using assms
  by (auto simp: after_unauthorized_def refresh_call_def world_of_def refreshAccessToken_def
        refreshExchange_def fetch_def ccFetchJsonWithToken_def attempt_result_def token_reply_def
        resume_def after_refresh_def reply_def Let_def
        split: sum.splits)

lemma alone_agrees:
  assumes "refreshInFlight s = None"
  shows "\<exists>s'. run h (alone h opts s) s = Some s'
             \<and> length (tasks s') = Suc (length (tasks s))
             \<and> tasks s' ! length (tasks s) = Done (fst (ccFetchJson h opts (world_of s)))
             \<and> world_of s' = snd (ccFetchJson h opts (world_of s))
             \<and> refreshInFlight s' = None"
proof (cases "requireEnv h ''CC_BASE_URL''")
  case (Inl e)
  with assms show ?thesis
    by (simp add: alone_def call_eq ccFetchJson_def world_of_def)
next
  case (Inr baseUrl)
  note base = Inr
  obtain r s1 where g: "getAccessToken h s = (r, s1)" by (cases "getAccessToken h s")
  note k = getAccessToken_system [OF g]
  have gw: "getAccessToken h (world_of s) = (r, world_of s1)"
    using g by (simp add: getAccessToken_world_of)
  let ?i = "length (tasks s)"
  show ?thesis
  proof (cases r)
    case (Inl e)
    from getAccessToken_error_status g Inl have "err_status e = None" by blast
    with Inl base g gw k assms show ?thesis
      by (simp add: alone_def call_eq ccFetchJson_def world_of_def)
  next
    case (Inr token)
    note tok = Inr
    show ?thesis
    proof (cases "ccUrl h baseUrl opts")
      case (Inl e)
      have "err_status e = None" by (rule ccUrl_error(2) [OF Inl])
      with Inl base tok g gw k assms show ?thesis
        by (simp add: alone_def call_eq ccFetchJson_def ccFetchJsonWithToken_invalid world_of_def)
    next
      case (Inr url)
      note cu = Inr
      let ?req = "ccRequest url token opts"
      let ?out = "network h (sent s) ?req"
      let ?s2 = "s1\<lparr>sent := sent s1 @ [?req], tasks := tasks s1 @ [AwaitFirst baseUrl opts]\<rparr>"
      have c: "call h opts s = ?s2"
        using base g tok cu by (simp add: call_eq)
      have t2: "?i < length (tasks ?s2)" "tasks ?s2 ! ?i = AwaitFirst baseUrl opts"
               "length (tasks ?s2) = Suc ?i" "refreshInFlight ?s2 = None"
               "sent ?s2 = sent s @ [?req]" "length (promises ?s2) = length (promises s)"
        using k assms by (simp_all add: nth_append)
      have w2: "world_of ?s2 = (world_of s1)\<lparr>sent := sent (world_of s1) @ [?req]\<rparr>"
        by (simp add: world_of_def)
      have cc: "ccFetchJson h opts (world_of s) =
                 (case attempt_result h ?out of
                    Inr r \<Rightarrow> (Inr r, world_of ?s2)
                  | Inl e \<Rightarrow>
                      if err_status e = Some 401
                      then (case refreshAccessToken h (world_of ?s2) of
                              (Inl e', w3) \<Rightarrow> (Inl e', w3)
                            | (Inr newToken, w3) \<Rightarrow> ccFetchJsonWithToken h baseUrl newToken opts w3)
                      else (Inl e, world_of ?s2))"
        using base gw tok k
        by (simp add: ccFetchJson_def ccFetchJsonWithToken_eq [OF cu] world_of_def split: sum.splits)
      show ?thesis
      proof (cases "attempt_result h ?out")
        case (Inr res)
        then have "run h (alone h opts s) s = Some (?s2\<lparr>tasks := (tasks ?s2)[?i := Done (Inr res)]\<rparr>)"
          using base g tok cu c t2(1,2)
          by (simp add: alone_def reply_def)
        then show ?thesis using cc Inr k assms by (simp add: world_of_def)
      next
        case (Inl e)
        show ?thesis
        proof (cases "err_status e = Some 401")
          case False
          with Inl have "run h (alone h opts s) s = Some (?s2\<lparr>tasks := (tasks ?s2)[?i := Done (Inl e)]\<rparr>)"
            using base g tok cu c t2(1,2)
            by (simp add: alone_def reply_def catch_first_def)
          then show ?thesis using cc Inl False k assms by (simp add: world_of_def)
        next
          case True
          have al: "alone h opts s
                      = Call opts # Reply ?i ?out
                        # after_unauthorized h baseUrl opts ?i (length (promises ?s2)) (sent ?s2)"
            using base g tok cu Inl True t2(5,6)
            by (simp add: alone_def)
          have st: "step h (Reply ?i ?out) ?s2 = Some (refresh_call h baseUrl opts ?i ?s2)"
            by (rule reply_unauthorized [OF t2(1,2) Inl True])
          from after_unauthorized_agrees [OF t2(4,1), of h baseUrl opts] obtain s' where
            s': "run h (after_unauthorized h baseUrl opts ?i (length (promises ?s2)) (sent ?s2))
                   (refresh_call h baseUrl opts ?i ?s2) = Some s'"
                "length (tasks s') = length (tasks ?s2)"
                "tasks s' ! ?i =
                   Done (fst (case refreshAccessToken h (world_of ?s2) of
                                (Inl e', w3) \<Rightarrow> (Inl e', w3)
                              | (Inr newToken, w3) \<Rightarrow> ccFetchJsonWithToken h baseUrl newToken opts w3))"
                "world_of s' =
                   snd (case refreshAccessToken h (world_of ?s2) of
                          (Inl e', w3) \<Rightarrow> (Inl e', w3)
                        | (Inr newToken, w3) \<Rightarrow> ccFetchJsonWithToken h baseUrl newToken opts w3)"
                "refreshInFlight s' = None"
            by blast
          have "run h (alone h opts s) s = Some s'"
            unfolding al using c st s'(1) by simp
          then show ?thesis using s'(2-5) t2(3) cc Inl True by simp
        qed
      qed
    qed
  qed
qed

section \<open>Validation in the contact-detail route\<close>

lemma check_include_rejects:
  assumes "parseCsv raw = [] \<or> (\<exists>v \<in> set (parseCsv raw). v \<notin> set ALLOWED_INCLUDE)"
  shows "\<exists>msg. check_include (Some raw) = Inl msg"
proof (cases "parseCsv raw = []")
  case True
  then show ?thesis by (simp add: check_include_def)
next
  case False
  with assms obtain v where "v \<in> set (parseCsv raw)" "v \<notin> set ALLOWED_INCLUDE" by blast
  then have "find (\<lambda>v. v \<notin> set ALLOWED_INCLUDE) (parseCsv raw) \<noteq> None"
    by (auto simp: find_None_iff)
  then show ?thesis using False by (auto simp: check_include_def Let_def)
qed

text \<open>
  C10, as amended. For every GET to the contact-detail route, if the id, with the white
  space around it removed, does not match the UUID pattern, or the \<^verbatim>\<open>include\<close> parameter
  is present and is empty after CSV parsing or has a value outside the allowed set, the
  handler returns status 400 with a body \<^verbatim>\<open>{error: message}\<close> and leaves the module state
  as it was: no request was handed to \<^verbatim>\<open>fetch\<close>.
\<close>

theorem contact_detail_validation:
  assumes "\<not> looksUuid contact_id
           \<or> (\<exists>raw. includeRaw = Some raw
                  \<and> (parseCsv raw = [] \<or> (\<exists>v \<in> set (parseCsv raw). v \<notin> set ALLOWED_INCLUDE)))"
  shows "\<exists>msg. GET h contact_id includeRaw w
                 = (Inr \<lparr>resp_status = 400, resp_body = JObj [(''error'', JStr msg)]\<rparr>, w)"
proof (cases "looksUuid contact_id")
  case False
  then show ?thesis by (simp add: GET_def GET_try_def NextResponse_json_def)
next
  case True
  with assms obtain raw where
    raw: "includeRaw = Some raw"
         "parseCsv raw = [] \<or> (\<exists>v \<in> set (parseCsv raw). v \<notin> set ALLOWED_INCLUDE)"
    by blast
  from check_include_rejects [OF raw(2)] obtain msg where "check_include (Some raw) = Inl msg" ..
  with True raw(1) show ?thesis by (simp add: GET_def GET_try_def NextResponse_json_def)
qed

theorem contact_detail_validation_witness:
  "looksUuid ''00000000-0000-0000-0000-00000000000A''
   \<and> parseCsv ''notes, tagging'' = [''notes'', ''tagging'']
   \<and> ''tagging'' \<notin> set ALLOWED_INCLUDE
   \<and> (\<exists>msg. GET (demo_host demo_vars token_T2 contacts_ok contacts_ok)
                ''00000000-0000-0000-0000-00000000000A'' (Some ''notes, tagging'')
                (initial_world (demo_host demo_vars token_T2 contacts_ok contacts_ok))
              = (Inr \<lparr>resp_status = 400, resp_body = JObj [(''error'', JStr msg)]\<rparr>,
                 initial_world (demo_host demo_vars token_T2 contacts_ok contacts_ok)))"
proof -
  have u: "looksUuid ''00000000-0000-0000-0000-00000000000A''"
    by (simp add: looksUuid_def trim_def isWhite_def uuid_regex_test_def isHex_def eval_nat_numeral)
  have p: "parseCsv ''notes, tagging'' = [''notes'', ''tagging'']"
    by (simp add: parseCsv_def trim_def isWhite_def)
  have a: "''tagging'' \<notin> set ALLOWED_INCLUDE" by (simp add: ALLOWED_INCLUDE_def)
  have h: "\<not> looksUuid ''00000000-0000-0000-0000-00000000000A''
           \<or> (\<exists>raw. Some ''notes, tagging'' = Some raw
                  \<and> (parseCsv raw = [] \<or> (\<exists>v \<in> set (parseCsv raw). v \<notin> set ALLOWED_INCLUDE)))"
    using p a by simp
  from contact_detail_validation [OF h] u p a show ?thesis by blast
qed

text \<open>
  The claim as stated answers 400 to every id that does not match the UUID pattern. An
  id with a leading space does not match it, but \<^verbatim>\<open>looksUuid\<close> tests the trimmed id
  (line 83): the handler calls the contact service, with the space in the path.
\<close>

theorem padded_id_counterexample:
  "\<not> uuid_regex_test padded_id
   \<and> fst (GET (demo_host demo_vars token_T2 contacts_ok contacts_ok) padded_id None
            (initial_world (demo_host demo_vars token_T2 contacts_ok contacts_ok)))
       = Inr \<lparr>resp_status = 200, resp_body = JObj [(''contacts'', JArr [])]\<rparr>
   \<and> map req_url
         (sent (snd (GET (demo_host demo_vars token_T2 contacts_ok contacts_ok) padded_id None
                  (initial_world (demo_host demo_vars token_T2 contacts_ok contacts_ok)))))
       = [''https://api.cc.email/v3/contacts/%2000000000-0000-0000-0000-00000000000a'']"
proof -
  let ?h = "demo_host demo_vars token_T2 contacts_ok contacts_ok"
  have n: "\<not> uuid_regex_test padded_id"
    by (simp add: padded_id_def uuid_regex_test_def isHex_def eval_nat_numeral)
  have u: "looksUuid padded_id"
    by (simp add: padded_id_def looksUuid_def trim_def isWhite_def uuid_regex_test_def isHex_def eval_nat_numeral)
  have e: "encodeURIComponent padded_id = ''%2000000000-0000-0000-0000-00000000000a''"
    by (simp add: padded_id_def encodeURIComponent_def encode_unit_def unreserved_def percent_def)
  have c: "check_include None = Inr JUndefined" by (simp add: check_include_def)
  have g: "GET ?h padded_id None (initial_world ?h)
             = (Inr \<lparr>resp_status = 200, resp_body = JObj [(''contacts'', JArr [])]\<rparr>,
                (initial_world ?h)
                  \<lparr>sent := [ccRequest
                              ''https://api.cc.email/v3/contacts/%2000000000-0000-0000-0000-00000000000a''
                              (JStr ''T1'')
                              \<lparr>opt_method = None,
                               opt_path = ''/contacts/%2000000000-0000-0000-0000-00000000000a'',
                               opt_query = None, opt_body = JUndefined\<rparr>]\<rparr>)"
    using u e c by (simp add: GET_def GET_try_def NextResponse_json_def client_defs demo_defs Let_def)
  show ?thesis using n g by (simp add: ccRequest_def)
qed

end
